theory Spec2Isabelle
  imports Main "HOL-Library.Word"
begin

section \<open>The UDP request/response client of miio-api (src/Socket.ts)\<close>

text \<open>
  The class \<open>Socket\<close> owns one datagram socket. Its method \<open>send\<close> connects the
  socket when needed, registers a listener for "message" events, optionally starts a
  timer, transmits the payload and returns a promise that is settled by the first of
  three callbacks: the listener \<open>onMessage\<close>, the timer callback, or the completion
  callback of the transmission; or, before any of them, by an exception thrown while the
  executor of the promise runs.

  The model is a state machine. The state is the client object together with the
  captured variables of every \<open>send\<close> call; an event is one callback that the runtime
  runs to completion (a caller invoking \<open>send\<close>, the connect callback, an inbound
  datagram, a timer firing, the completion callback of a transmission). A callback that
  throws is a result of the model: the exception is returned beside the state at which
  it was raised. Of the runtime, the model has what decides the behaviour of this code:
  listeners are called in registration order and an exception of one ends the emission;
  a timer runs only while it is armed; \<open>socket.send(data, callback)\<close> on a socket that
  is not connected throws at once. The method \<open>close\<close> is left out: the properties below
  are about clients that have not been closed.
\<close>

subsection \<open>Values\<close>

type_synonym buffer = "8 word list"

text \<open>A JavaScript error object, as far as a caller can inspect it.\<close>

record jserror =
  message :: string
  code :: "string option"

text \<open>\<open>new Error(msg)\<close>: a plain error that carries a message and no error code.\<close>

definition new_Error :: "string \<Rightarrow> jserror" where
  "new_Error msg = \<lparr>message = msg, code = None\<rparr>"

text \<open>
  The error that \<open>socket.send(data, callback)\<close> throws on a socket that is not connected:
  without a connected peer the second argument is taken for the port.
\<close>

definition ERR_SOCKET_BAD_PORT :: jserror where
  "ERR_SOCKET_BAD_PORT =
     \<lparr>message = ''Port should be > 0 and < 65536'', code = Some ''ERR_SOCKET_BAD_PORT''\<rparr>"

text \<open>
  The \<open>timeout\<close> argument is a JavaScript number: a number of milliseconds or \<open>NaN\<close>.
  It is falsy when it is zero or \<open>NaN\<close>, and every comparison with \<open>NaN\<close> is false.
\<close>

datatype jsnumber = Num int | NaN

fun truthy :: "jsnumber \<Rightarrow> bool" where
  "truthy (Num n) = (n \<noteq> 0)"
| "truthy NaN = False"

instantiation jsnumber :: "{zero, ord}"
begin

definition zero_jsnumber :: jsnumber where
  "zero_jsnumber = Num 0"

definition less_jsnumber :: "jsnumber \<Rightarrow> jsnumber \<Rightarrow> bool" where
  "less_jsnumber a b = (case (a, b) of (Num x, Num y) \<Rightarrow> x < y | _ \<Rightarrow> False)"

definition less_eq_jsnumber :: "jsnumber \<Rightarrow> jsnumber \<Rightarrow> bool" where
  "less_eq_jsnumber a b = (case (a, b) of (Num x, Num y) \<Rightarrow> x \<le> y | _ \<Rightarrow> False)"

instance ..

end

text \<open>
  A promise is pending (\<open>None\<close>) or settled. Settling a settled promise does nothing:
  the first \<open>resolve\<close> or \<open>reject\<close> wins.
\<close>

datatype 'r settled = Resolved 'r | Rejected jserror

text \<open>The error a caller of \<open>send\<close> catches, if the promise was rejected.\<close>

definition rejection :: "'r settled option \<Rightarrow> jserror option" where
  "rejection r = (case r of Some (Rejected e) \<Rightarrow> Some e | _ \<Rightarrow> None)"

definition resolve :: "'r \<Rightarrow> 'r settled option \<Rightarrow> 'r settled option" where
  "resolve v p = (case p of None \<Rightarrow> Some (Resolved v) | Some x \<Rightarrow> Some x)"

definition reject :: "jserror \<Rightarrow> 'r settled option \<Rightarrow> 'r settled option" where
  "reject e p = (case p of None \<Rightarrow> Some (Rejected e) | Some x \<Rightarrow> Some x)"

text \<open>
  The variable \<open>timer\<close> of a call together with the runtime's view of the timer it
  names: \<open>NoTimer\<close> is \<open>null\<close>; \<open>Armed ms\<close> is a timer scheduled by
  \<open>setTimeout(_, ms)\<close> that has neither run nor been cleared; \<open>Cleared\<close> and
  \<open>Fired\<close> are handles of a timer that will not run (again).
\<close>

datatype timer_handle = NoTimer | Armed jsnumber | Cleared | Fired

fun is_armed :: "timer_handle \<Rightarrow> bool" where
  "is_armed (Armed ms) = True"
| "is_armed t = False"

fun clearTimeout :: "timer_handle \<Rightarrow> timer_handle" where
  "clearTimeout (Armed ms) = Cleared"
| "clearTimeout t = t"

subsection \<open>State\<close>

text \<open>
  One \<open>send\<close> call: its arguments (\<open>timeout\<close> after the default has been applied), whether
  it has got past \<open>await this._connect()\<close> and run the executor of \<open>resultPromise\<close>,
  its timer and its promise.
\<close>

record 'r call =
  data :: buffer
  parse :: "buffer \<Rightarrow> jserror + 'r"
  match :: "'r \<Rightarrow> bool"
  timeout :: jsnumber
  started :: bool
  timer :: timer_handle
  result :: "'r settled option"

text \<open>
  The client. \<open>connected\<close> is the socket's own connection state. \<open>connecting\<close> is the in-flight shared connect attempt with
  the calls awaiting it, in the order they attached. \<open>connects\<close> counts the invocations
  of \<open>socket.connect\<close>, \<open>listeners\<close> is the socket's list of "message" listeners in
  registration order (a call's \<open>onMessage\<close> closure is named by the call's index),
  \<open>sent\<close> logs the payloads that \<open>socket.send\<close> accepted for transmission, each with
  the call it came from.
\<close>

record 'r client =
  ip :: string
  port :: nat
  connected :: bool
  connecting :: "nat list option"
  connects :: nat
  listeners :: "nat list"
  calls :: "'r call list"
  sent :: "(nat \<times> buffer) list"

datatype 'r event =
    Invoke buffer "buffer \<Rightarrow> jserror + 'r" "'r \<Rightarrow> bool" "jsnumber option"
  | ConnectDone "jserror option"
  | Message buffer
  | TimerFire nat
  | SendDone nat "jserror option"

subsection \<open>Operations\<close>

text \<open>The constructor: an unconnected socket, no network activity.\<close>

definition Socket :: "string \<Rightarrow> nat \<Rightarrow> 'r client" where
  "Socket ip0 port0 =
     \<lparr>ip = ip0, port = port0, connected = False, connecting = None, connects = 0,
      listeners = [], calls = [], sent = []\<rparr>"

text \<open>
  \<open>socket.remoteAddress()\<close> returns the remote endpoint of a connected socket and throws
  otherwise; \<open>_isConnected\<close> turns that into a truth value.
\<close>

definition remoteAddress :: "'r client \<Rightarrow> jserror + string \<times> nat" where
  "remoteAddress s =
     (if connected s then Inr (ip s, port s)
      else Inl \<lparr>message = ''Not connected'', code = Some ''ERR_SOCKET_DGRAM_NOT_CONNECTED''\<rparr>)"

definition isConnected :: "'r client \<Rightarrow> bool" where
  "isConnected s = (case remoteAddress s of Inr address \<Rightarrow> True | Inl err \<Rightarrow> False)"

text \<open>The body of \<open>_connect\<close>: one invocation of \<open>socket.connect(port, ip, callback)\<close>.\<close>

definition connect :: "'r client \<Rightarrow> 'r client" where
  "connect s = s\<lparr>connects := connects s + 1\<rparr>"

text \<open>
  Modelled from the spec: the decorator \<open>reusePromise\<close> of \<open>./utils\<close>, which is not
  among the sources. The spec describes it as a single-flight guard: a shared,
  lazily created pending attempt; the first caller runs the wrapped method, concurrent
  callers attach to the same pending attempt instead of running it again, and the
  attempt is forgotten when it completes (which permits a retry).
\<close>

definition reusePromise :: "('r client \<Rightarrow> 'r client) \<Rightarrow> nat \<Rightarrow> 'r client \<Rightarrow> 'r client" where
  "reusePromise method i s =
     (case connecting s of
        None \<Rightarrow> (method s)\<lparr>connecting := Some [i]\<rparr>
      | Some waiters \<Rightarrow> s\<lparr>connecting := Some (waiters @ [i])\<rparr>)"

text \<open>
  \<open>removeListener\<close> takes the most recent registration of the listener off the list.
\<close>

definition removeListener :: "nat \<Rightarrow> nat list \<Rightarrow> nat list" where
  "removeListener i ls = rev (remove1 i (rev ls))"

text \<open>
  \<open>socket.send(data, callback)\<close> as call \<open>i\<close> invokes it: a connected socket accepts
  the payload and will report the outcome to the callback; a socket that is not
  connected throws.
\<close>

definition socket_send :: "nat \<Rightarrow> buffer \<Rightarrow> 'r client \<Rightarrow> jserror + 'r client" where
  "socket_send i d s =
     (if connected s then Inr (s\<lparr>sent := sent s @ [(i, d)]\<rparr>) else Inl ERR_SOCKET_BAD_PORT)"

text \<open>
  The executor of \<open>resultPromise\<close> (what \<open>send\<close> does once it is past the connect
  step): start the timer if \<open>timeout\<close> is truthy, register \<open>onMessage\<close>, call
  \<open>socket.send(data, callback)\<close>. An exception thrown inside the executor of a promise
  rejects that promise: when \<open>socket.send\<close> throws, the call is rejected with the
  exception, and the timer and the listener set up before stay as they are.
\<close>

definition executor :: "nat \<Rightarrow> 'r client \<Rightarrow> 'r client" where
  "executor i s =
     (let c = calls s ! i;
          c1 = c\<lparr>started := True,
                 timer := (if truthy (timeout c) then Armed (timeout c) else NoTimer)\<rparr>;
          s1 = s\<lparr>calls := (calls s)[i := c1], listeners := listeners s @ [i]\<rparr>
      in case socket_send i (data c) s1 of
           Inr s2 \<Rightarrow> s2
         | Inl e \<Rightarrow> s1\<lparr>calls := (calls s1)[i := c1\<lparr>result := reject e (result c1)\<rparr>]\<rparr>)"

text \<open>
  \<open>send(data, parse, match, timeout = 5000)\<close> up to its first suspension: the call is
  created; if the socket is connected the executor runs at once, otherwise the call
  awaits \<open>this._connect()\<close>.
\<close>

definition send ::
  "buffer \<Rightarrow> (buffer \<Rightarrow> jserror + 'r) \<Rightarrow> ('r \<Rightarrow> bool) \<Rightarrow> jsnumber option \<Rightarrow> 'r client \<Rightarrow> 'r client" where
  "send d p m t s =
     (let i = length (calls s);
          c = \<lparr>data = d, parse = p, match = m,
               timeout = (case t of None \<Rightarrow> Num 5000 | Some ms \<Rightarrow> ms),
               started = False, timer = NoTimer, result = None\<rparr>;
          s1 = s\<lparr>calls := calls s @ [c]\<rparr>
      in if isConnected s1 then executor i s1 else reusePromise connect i s1)"

text \<open>
  The callback given to \<open>socket.connect\<close> is \<open>() => { resolve(); }\<close>: it takes no
  argument, so whatever the runtime reports, the shared promise is resolved, and every
  awaiting call resumes, in the order of attachment, and runs its executor. The socket
  is connected afterwards only if the runtime reported no error; after a failed connect
  the executors run on a socket that is not connected.
\<close>

definition connect_callback :: "jserror option \<Rightarrow> 'r client \<Rightarrow> 'r client" where
  "connect_callback err s =
     (case connecting s of
        None \<Rightarrow> s
      | Some waiters \<Rightarrow>
          fold executor waiters (s\<lparr>connected := (err = None), connecting := None\<rparr>))"

text \<open>
  The listener of call \<open>i\<close>. \<open>parse\<close> is called outside any \<open>try\<close>: when it throws, the
  exception leaves \<open>onMessage\<close> and nothing has been changed.
\<close>

definition onMessage :: "nat \<Rightarrow> buffer \<Rightarrow> 'r client \<Rightarrow> jserror option \<times> 'r client" where
  "onMessage i msg s =
     (let c = calls s ! i in
      case parse c msg of
        Inl e \<Rightarrow> (Some e, s)
      | Inr parsed \<Rightarrow>
          if match c parsed then
            (None,
             s\<lparr>calls := (calls s)[i := c\<lparr>timer := (if timer c \<noteq> NoTimer then clearTimeout (timer c)
                                                   else timer c),
                                         result := resolve parsed (result c)\<rparr>],
               listeners := removeListener i (listeners s)\<rparr>)
          else (None, s))"

text \<open>
  Emitting "message": the listeners registered at that moment are called in
  registration order; an exception thrown by a listener ends the emission and
  propagates, so the listeners after it are not called.
\<close>

fun emit :: "nat list \<Rightarrow> buffer \<Rightarrow> 'r client \<Rightarrow> jserror option \<times> 'r client" where
  "emit [] msg s = (None, s)"
| "emit (i # rest) msg s =
     (case onMessage i msg s of
        (Some e, s') \<Rightarrow> (Some e, s')
      | (None, s') \<Rightarrow> emit rest msg s')"

text \<open>The timer callback of call \<open>i\<close>.\<close>

definition onTimeout :: "nat \<Rightarrow> 'r client \<Rightarrow> 'r client" where
  "onTimeout i s =
     (let c = calls s ! i in
      s\<lparr>calls := (calls s)[i := c\<lparr>timer := Fired,
                                  result := reject (new_Error ''Socket timeout'') (result c)\<rparr>],
        listeners := removeListener i (listeners s)\<rparr>)"

text \<open>The callback that call \<open>i\<close> gave to \<open>socket.send\<close>.\<close>

definition onSent :: "nat \<Rightarrow> jserror option \<Rightarrow> 'r client \<Rightarrow> 'r client" where
  "onSent i err s =
     (case err of
        None \<Rightarrow> s
      | Some e \<Rightarrow>
          (let c = calls s ! i in
           s\<lparr>calls := (calls s)[i := c\<lparr>timer := (if timer c \<noteq> NoTimer then clearTimeout (timer c)
                                                 else timer c),
                                       result := reject e (result c)\<rparr>],
             listeners := removeListener i (listeners s)\<rparr>))"

text \<open>
  One event. The runtime runs a callback only when it is due: the connect callback
  while an attempt is in flight, a timer callback while the timer is armed, the
  completion callback of a transmission after \<open>socket.send\<close> was called (a call whose
  \<open>socket.send\<close> threw has no such callback; the event is admitted for it all the same,
  which only adds behaviours to those the properties below are proved of). The first
  component of the result is the exception that the callback let escape, if any.
\<close>

fun step :: "'r event \<Rightarrow> 'r client \<Rightarrow> jserror option \<times> 'r client" where
  "step (Invoke d p m t) s = (None, send d p m t s)"
| "step (ConnectDone err) s = (None, connect_callback err s)"
| "step (Message msg) s = emit (listeners s) msg s"
| "step (TimerFire i) s =
     (if i < length (calls s) \<and> is_armed (timer (calls s ! i)) then (None, onTimeout i s)
      else (None, s))"
| "step (SendDone i err) s =
     (if i < length (calls s) \<and> started (calls s ! i) then (None, onSent i err s)
      else (None, s))"

text \<open>
  A run handles events in order and ends at the first exception that no callback
  caught (the source installs no handler for it).
\<close>

fun run :: "'r event list \<Rightarrow> 'r client \<Rightarrow> jserror option \<times> 'r client" where
  "run [] s = (None, s)"
| "run (ev # evs) s =
     (case step ev s of
        (Some e, s') \<Rightarrow> (Some e, s')
      | (None, s') \<Rightarrow> run evs s')"

text \<open>
  The states a client can be in: those of a new client, and those after one more event
  (also after an event whose callback threw, should the host go on).
\<close>

inductive reachable :: "'r client \<Rightarrow> bool" where
  reachable_new: "reachable (Socket ip0 port0)"
| reachable_step: "reachable s \<Longrightarrow> reachable (snd (step ev s))"

text \<open>
  The state after a list of events when the host goes on after an exception (for
  instance with a handler for uncaught exceptions installed by the application).
\<close>

fun exec :: "'r event list \<Rightarrow> 'r client \<Rightarrow> 'r client" where
  "exec [] s = s"
| "exec (ev # evs) s = exec evs (snd (step ev s))"

fun is_Invoke :: "'r event \<Rightarrow> bool" where
  "is_Invoke (Invoke d p m t) = True"
| "is_Invoke ev = False"

subsection \<open>Invariant of the reachable states\<close>

text \<open>The calls whose payload \<open>socket.send\<close> has accepted.\<close>

definition transmitted :: "'r client \<Rightarrow> nat \<Rightarrow> bool" where
  "transmitted s i \<longleftrightarrow> i \<in> fst ` set (sent s)"

text \<open>
  What holds of call \<open>i\<close> in every reachable state, given the socket's listeners and
  whether the call's payload was accepted (\<open>tx\<close>): a started call that is pending was
  accepted, and an accepted call has started; the listener of an accepted call is
  registered exactly while the call is pending, and its timer is armed exactly while, in
  addition, its timeout is truthy; a call that has not started has no listener, no timer
  and no result; a call with a falsy timeout has no timer.
\<close>

definition call_ok :: "nat list \<Rightarrow> bool \<Rightarrow> nat \<Rightarrow> 'r call \<Rightarrow> bool" where
  "call_ok ls tx i c \<longleftrightarrow>
     (started c \<and> result c = None \<longrightarrow> tx) \<and>
     (tx \<longrightarrow> started c) \<and>
     (tx \<longrightarrow> ((i \<in> set ls) = (result c = None)) \<and>
             (is_armed (timer c) = (result c = None \<and> truthy (timeout c)))) \<and>
     (\<not> started c \<longrightarrow> i \<notin> set ls \<and> timer c = NoTimer \<and> result c = None) \<and>
     (\<not> truthy (timeout c) \<longrightarrow> timer c = NoTimer)"

definition waiters_ok :: "'r call list \<Rightarrow> nat list \<Rightarrow> bool" where
  "waiters_ok cs ws \<longleftrightarrow> distinct ws \<and> (\<forall>i\<in>set ws. i < length cs \<and> \<not> started (cs ! i))"

definition client_inv :: "'r client \<Rightarrow> bool" where
  "client_inv s \<longleftrightarrow>
     distinct (listeners s) \<and>
     (\<forall>i\<in>set (listeners s). i < length (calls s)) \<and>
     (\<forall>i<length (calls s). call_ok (listeners s) (transmitted s i) i (calls s ! i)) \<and>
     (\<forall>ws. connecting s = Some ws \<longrightarrow> waiters_ok (calls s) ws) \<and>
     (\<forall>i. transmitted s i \<longrightarrow> i < length (calls s))"

text \<open>The arguments of a call, which no callback changes.\<close>

definition same_args :: "'r call \<Rightarrow> 'r call \<Rightarrow> bool" where
  "same_args c c' \<longleftrightarrow>
     data c' = data c \<and> parse c' = parse c \<and> match c' = match c \<and> timeout c' = timeout c"

subsection \<open>Example inputs\<close>

text \<open>
  A caller whose responses carry their kind in the first byte: \<open>parse\<close> throws on an
  empty datagram, \<open>match\<close> accepts the value 1. A second caller's \<open>parse\<close> reads an
  empty datagram as the value 1.
\<close>

definition example_parse :: "buffer \<Rightarrow> jserror + 8 word" where
  "example_parse b = (case b of [] \<Rightarrow> Inl (new_Error ''empty datagram'') | x # xs \<Rightarrow> Inr x)"

definition example_parse_lenient :: "buffer \<Rightarrow> jserror + 8 word" where
  "example_parse_lenient b = (case b of [] \<Rightarrow> Inr 1 | x # xs \<Rightarrow> Inr x)"

definition example_match :: "8 word \<Rightarrow> bool" where
  "example_match v = (v = 1)"

definition example_client :: "8 word client" where
  "example_client = Socket ''192.168.1.10'' 54321"

section \<open>Properties\<close>

subsection \<open>The invariant holds in every reachable state\<close>

lemma isConnected_connected: "isConnected s = connected s"
  by (simp add: isConnected_def remoteAddress_def)

lemma set_removeListener: "distinct ls \<Longrightarrow> set (removeListener i ls) = set ls - {i}"
  by (simp add: removeListener_def)

lemma distinct_removeListener: "distinct ls \<Longrightarrow> distinct (removeListener i ls)"
  by (simp add: removeListener_def)

lemma in_removeListener_other:
  "j \<noteq> i \<Longrightarrow> (j \<in> set (removeListener i ls)) = (j \<in> set ls)"
  by (simp add: removeListener_def)

lemma removeListener_subset: "set (removeListener i ls) \<subseteq> set ls"
  using set_remove1_subset [of i "rev ls"] by (simp add: removeListener_def)

lemma inv_Socket: "client_inv (Socket a b)"
  by (simp add: client_inv_def Socket_def transmitted_def)

lemma is_armed_clear [simp]: "\<not> is_armed (clearTimeout t)"
  by (cases t) simp_all

lemma clear_NoTimer [simp]: "(clearTimeout t = NoTimer) = (t = NoTimer)"
  by (cases t) simp_all

lemma resolve_not_None [simp]: "resolve v p \<noteq> None"
  by (simp add: resolve_def split: option.splits)

lemma reject_not_None [simp]: "reject e p \<noteq> None"
  by (simp add: reject_def split: option.splits)

lemma executor_unfold:
  "executor i s =
     (if connected s
      then s\<lparr>calls := (calls s)[i := (calls s ! i)\<lparr>started := True,
                 timer := (if truthy (timeout (calls s ! i)) then Armed (timeout (calls s ! i))
                           else NoTimer)\<rparr>],
             listeners := listeners s @ [i],
             sent := sent s @ [(i, data (calls s ! i))]\<rparr>
      else s\<lparr>calls := (calls s)[i := (calls s ! i)\<lparr>started := True,
                 timer := (if truthy (timeout (calls s ! i)) then Armed (timeout (calls s ! i))
                           else NoTimer),
                 result := reject ERR_SOCKET_BAD_PORT (result (calls s ! i))\<rparr>],
             listeners := listeners s @ [i]\<rparr>)"
  by (simp add: executor_def socket_send_def Let_def)

lemma call_ok_cong:
  "(j \<in> set ls') = (j \<in> set ls) \<Longrightarrow> call_ok ls' tx j c = call_ok ls tx j c"
  by (simp add: call_ok_def)

lemma inv_call: "client_inv s \<Longrightarrow> i < length (calls s) \<Longrightarrow>
    call_ok (listeners s) (transmitted s i) i (calls s ! i)"
  by (simp add: client_inv_def)

lemma inv_distinct: "client_inv s \<Longrightarrow> distinct (listeners s)"
  by (simp add: client_inv_def)

lemma inv_listener_bound: "client_inv s \<Longrightarrow> i \<in> set (listeners s) \<Longrightarrow> i < length (calls s)"
  by (simp add: client_inv_def)

lemma inv_waiters: "client_inv s \<Longrightarrow> connecting s = Some ws \<Longrightarrow> waiters_ok (calls s) ws"
  by (simp add: client_inv_def)

lemma inv_transmitted_bound: "client_inv s \<Longrightarrow> transmitted s i \<Longrightarrow> i < length (calls s)"
  by (simp add: client_inv_def)

lemma client_invI:
  assumes "distinct (listeners s)"
    and "\<And>i. i \<in> set (listeners s) \<Longrightarrow> i < length (calls s)"
    and "\<And>i. i < length (calls s) \<Longrightarrow> call_ok (listeners s) (transmitted s i) i (calls s ! i)"
    and "\<And>ws. connecting s = Some ws \<Longrightarrow> waiters_ok (calls s) ws"
    and "\<And>i. transmitted s i \<Longrightarrow> i < length (calls s)"
  shows "client_inv s"
  unfolding client_inv_def using assms by blast

lemma waiters_ok_update:
  assumes "waiters_ok cs ws" "started c' = started (cs ! i)"
  shows "waiters_ok (cs[i := c']) ws"
  unfolding waiters_ok_def
proof (intro conjI ballI)
  show "distinct ws" using assms(1) by (simp add: waiters_ok_def)
next
  fix k assume k: "k \<in> set ws"
  then have kl: "k < length cs" and ks: "\<not> started (cs ! k)"
    using assms(1) by (auto simp: waiters_ok_def)
  show "k < length (cs[i := c'])" using kl by simp
  show "\<not> started (cs[i := c'] ! k)"
    using kl ks assms(2) by (cases "k = i") simp_all
qed

lemma call_ok_settle:
  assumes ok: "call_ok ls tx i c" and st: "started c"
    and na: "\<not> is_armed t'"
    and nt: "(t' = NoTimer) = (timer c = NoTimer)" and dl: "distinct ls"
  shows "call_ok (removeListener i ls) tx i (c\<lparr>timer := t', result := Some y\<rparr>)"
  using ok st na nt dl by (simp add: call_ok_def set_removeListener)

text \<open>A callback that settles call \<open>i\<close> and removes its listener keeps the invariant.\<close>

lemma inv_settle:
  assumes inv: "client_inv s" and len: "i < length (calls s)" and st: "started (calls s ! i)"
    and na: "\<not> is_armed t'"
    and nt: "(t' = NoTimer) = (timer (calls s ! i) = NoTimer)"
    and s': "s' = s\<lparr>calls := (calls s)[i := (calls s ! i)\<lparr>timer := t', result := Some y\<rparr>],
                        listeners := removeListener i (listeners s)\<rparr>"
  shows "client_inv s'"
proof (rule client_invI)
  have ls: "listeners s' = removeListener i (listeners s)" by (simp add: s')
  have cs: "calls s' = (calls s)[i := (calls s ! i)\<lparr>timer := t', result := Some y\<rparr>]"
    by (simp add: s')
  have cn: "connecting s' = connecting s" by (simp add: s')
  have tx: "transmitted s' j = transmitted s j" for j by (simp add: s' transmitted_def)
  have dl: "distinct (listeners s)" using inv by (rule inv_distinct)
  show "distinct (listeners s')" unfolding ls using dl by (rule distinct_removeListener)
  show "j < length (calls s')" if "j \<in> set (listeners s')" for j
  proof -
    have "j \<in> set (listeners s)"
      using that removeListener_subset [of i "listeners s"] unfolding ls by blast
    with inv have "j < length (calls s)" by (rule inv_listener_bound)
    then show ?thesis unfolding cs by simp
  qed
  show "call_ok (listeners s') (transmitted s' j) j (calls s' ! j)"
    if j: "j < length (calls s')" for j
  proof (cases "j = i")
    case True
    have "call_ok (listeners s) (transmitted s i) i (calls s ! i)"
      using inv len by (rule inv_call)
    then have "call_ok (removeListener i (listeners s)) (transmitted s i) i
        ((calls s ! i)\<lparr>timer := t', result := Some y\<rparr>)"
      using st na nt dl by (rule call_ok_settle)
    then show ?thesis unfolding ls cs tx True using len by simp
  next
    case False
    have "j < length (calls s)" using j unfolding cs by simp
    with inv have "call_ok (listeners s) (transmitted s j) j (calls s ! j)" by (rule inv_call)
    moreover have "(j \<in> set (removeListener i (listeners s))) = (j \<in> set (listeners s))"
      using False by (rule in_removeListener_other)
    ultimately have "call_ok (removeListener i (listeners s)) (transmitted s j) j (calls s ! j)"
      using call_ok_cong [of j "removeListener i (listeners s)" "listeners s"] by blast
    then show ?thesis unfolding ls cs tx using False by simp
  qed
  show "waiters_ok (calls s') ws" if w: "connecting s' = Some ws" for ws
  proof -
    have "connecting s = Some ws" using w unfolding cn .
    with inv have "waiters_ok (calls s) ws" by (rule inv_waiters)
    then show ?thesis unfolding cs by (rule waiters_ok_update) simp
  qed
  show "j < length (calls s')" if "transmitted s' j" for j
  proof -
    have "transmitted s j" using that unfolding tx .
    with inv have "j < length (calls s)" by (rule inv_transmitted_bound)
    then show ?thesis unfolding cs by simp
  qed
qed

lemma inv_onMessage:
  assumes "client_inv s" "i \<in> set (listeners s)"
  shows "client_inv (snd (onMessage i msg s))"
proof -
  have len: "i < length (calls s)" using assms by (rule inv_listener_bound)
  have "call_ok (listeners s) (transmitted s i) i (calls s ! i)"
    using assms(1) len by (rule inv_call)
  then have st: "started (calls s ! i)" using assms(2) by (auto simp: call_ok_def)
  show ?thesis
  proof (cases "parse (calls s ! i) msg")
    case (Inl e)
    then show ?thesis using assms(1) by (simp add: onMessage_def Let_def)
  next
    case (Inr v)
    show ?thesis
    proof (cases "match (calls s ! i) v")
      case True
      obtain y where y: "resolve v (result (calls s ! i)) = Some y"
        by (cases "resolve v (result (calls s ! i))") simp_all
      show ?thesis
        using assms(1) len st
      proof (rule inv_settle)
        show "snd (onMessage i msg s) =
          s\<lparr>calls := (calls s)[i := (calls s ! i)\<lparr>
              timer := (if timer (calls s ! i) \<noteq> NoTimer then clearTimeout (timer (calls s ! i))
                        else timer (calls s ! i)),
              result := Some y\<rparr>],
            listeners := removeListener i (listeners s)\<rparr>"
          using Inr True y by (simp add: onMessage_def Let_def)
      qed simp_all
    next
      case False
      then show ?thesis using Inr assms(1) by (simp add: onMessage_def Let_def)
    qed
  qed
qed

lemma armed_started:
  "client_inv s \<Longrightarrow> i < length (calls s) \<Longrightarrow> is_armed (timer (calls s ! i)) \<Longrightarrow>
   started (calls s ! i)"
proof (rule ccontr)
  assume inv: "client_inv s" and len: "i < length (calls s)"
    and a: "is_armed (timer (calls s ! i))" and n: "\<not> started (calls s ! i)"
  from inv len have "call_ok (listeners s) (transmitted s i) i (calls s ! i)" by (rule inv_call)
  with n have "timer (calls s ! i) = NoTimer" by (simp add: call_ok_def)
  with a show False by simp
qed

lemma inv_onTimeout:
  assumes "client_inv s" "i < length (calls s)" "is_armed (timer (calls s ! i))"
  shows "client_inv (onTimeout i s)"
proof -
  have st: "started (calls s ! i)" using assms by (rule armed_started)
  obtain y where y: "reject (new_Error ''Socket timeout'') (result (calls s ! i)) = Some y"
    by (cases "reject (new_Error ''Socket timeout'') (result (calls s ! i))") simp_all
  show ?thesis
    using assms(1,2) st
  proof (rule inv_settle)
    show "(Fired = NoTimer) = (timer (calls s ! i) = NoTimer)"
      using assms(3) by (cases "timer (calls s ! i)") simp_all
    show "onTimeout i s =
      s\<lparr>calls := (calls s)[i := (calls s ! i)\<lparr>timer := Fired, result := Some y\<rparr>],
        listeners := removeListener i (listeners s)\<rparr>"
      using y by (simp add: onTimeout_def Let_def)
  qed simp_all
qed

lemma inv_onSent:
  assumes "client_inv s" "i < length (calls s)" "started (calls s ! i)"
  shows "client_inv (onSent i err s)"
proof (cases err)
  case None
  then show ?thesis using assms(1) by (simp add: onSent_def)
next
  case (Some e)
  obtain y where y: "reject e (result (calls s ! i)) = Some y"
    by (cases "reject e (result (calls s ! i))") simp_all
  show ?thesis
    using assms
  proof (rule inv_settle)
    show "onSent i err s =
      s\<lparr>calls := (calls s)[i := (calls s ! i)\<lparr>
          timer := (if timer (calls s ! i) \<noteq> NoTimer then clearTimeout (timer (calls s ! i))
                    else timer (calls s ! i)),
          result := Some y\<rparr>],
        listeners := removeListener i (listeners s)\<rparr>"
      using Some y by (simp add: onSent_def Let_def)
  qed simp_all
qed

lemma inv_executor:
  assumes inv: "client_inv s" and len: "i < length (calls s)" and ns: "\<not> started (calls s ! i)"
    and nw: "\<forall>ws. connecting s = Some ws \<longrightarrow> i \<notin> set ws"
  shows "client_inv (executor i s)" (is "client_inv ?s'")
proof -
  have ok: "call_ok (listeners s) (transmitted s i) i (calls s ! i)"
    using inv len by (rule inv_call)
  with ns have ni: "i \<notin> set (listeners s)" and un: "result (calls s ! i) = None"
    and nt: "\<not> transmitted s i" and tm: "timer (calls s ! i) = NoTimer"
    by (auto simp: call_ok_def)
  have ls: "listeners ?s' = listeners s @ [i]" by (simp add: executor_unfold)
  have lc: "length (calls ?s') = length (calls s)" by (simp add: executor_unfold)
  have 1: "distinct (listeners ?s')" using inv ni by (simp add: ls inv_distinct)
  have 2: "j < length (calls ?s')" if "j \<in> set (listeners ?s')" for j
  proof (cases "j = i")
    case True
    then show ?thesis using len lc by simp
  next
    case False
    then have "j \<in> set (listeners s)" using that by (simp add: ls)
    then show ?thesis using inv lc by (simp add: inv_listener_bound)
  qed
  have 3: "call_ok (listeners ?s') (transmitted ?s' j) j (calls ?s' ! j)"
    if j: "j < length (calls ?s')" for j
  proof (cases "j = i")
    case True
    show ?thesis
      using True len un nt by (simp add: executor_unfold call_ok_def transmitted_def)
  next
    case False
    have jl: "j < length (calls s)" using j lc by simp
    have "call_ok (listeners s) (transmitted s j) j (calls s ! j)"
      using inv jl by (rule inv_call)
    moreover have "(j \<in> set (listeners ?s')) = (j \<in> set (listeners s))"
      using False by (simp add: ls)
    ultimately have "call_ok (listeners ?s') (transmitted s j) j (calls s ! j)"
      using call_ok_cong [of j "listeners ?s'" "listeners s" "transmitted s j" "calls s ! j"]
      by blast
    moreover have "calls ?s' ! j = calls s ! j" using False by (simp add: executor_unfold)
    moreover have "transmitted ?s' j = transmitted s j"
      using False by (auto simp: executor_unfold transmitted_def)
    ultimately show ?thesis by simp
  qed
  have 4: "waiters_ok (calls ?s') ws" if w: "connecting ?s' = Some ws" for ws
  proof -
    have c: "connecting s = Some ws" using w by (simp add: executor_unfold split: if_splits)
    then have wo: "waiters_ok (calls s) ws" using inv by (simp add: inv_waiters)
    have "calls ?s' ! k = calls s ! k" if "k \<in> set ws" for k
    proof -
      have "k \<noteq> i" using nw c that by auto
      then show ?thesis by (simp add: executor_unfold)
    qed
    then show ?thesis using wo lc by (simp add: waiters_ok_def)
  qed
  have 5: "j < length (calls ?s')" if "transmitted ?s' j" for j
  proof (cases "j = i")
    case True
    then show ?thesis using len lc by simp
  next
    case False
    then have "transmitted s j"
      using that by (auto simp: executor_unfold transmitted_def split: if_splits)
    then show ?thesis using inv lc by (simp add: inv_transmitted_bound)
  qed
  show ?thesis using 1 2 3 4 5 by (rule client_invI)
qed

lemma onMessage_length [simp]: "length (calls (snd (onMessage i msg s))) = length (calls s)"
  by (simp add: onMessage_def Let_def split: sum.splits)

lemma onMessage_listeners:
  "listeners (snd (onMessage i msg s)) = listeners s \<or>
   listeners (snd (onMessage i msg s)) = removeListener i (listeners s)"
  by (simp add: onMessage_def Let_def split: sum.splits)

lemma emit_Cons:
  "emit (j # rest) msg s =
     (if fst (onMessage j msg s) = None then emit rest msg (snd (onMessage j msg s))
      else onMessage j msg s)"
  by (cases "onMessage j msg s") (auto split: option.splits)

lemma inv_emit:
  assumes "client_inv s" "distinct ls" "set ls \<subseteq> set (listeners s)"
  shows "client_inv (snd (emit ls msg s))"
  using assms
proof (induction ls arbitrary: s)
  case Nil
  then show ?case by simp
next
  case (Cons i rest)
  let ?s' = "snd (onMessage i msg s)"
  have inv': "client_inv ?s'"
    using Cons.prems by (intro inv_onMessage) auto
  have dl: "distinct (listeners s)"
    using Cons.prems(1) by (rule inv_distinct)
  have sub: "set rest \<subseteq> set (listeners ?s')"
  proof
    fix j assume j: "j \<in> set rest"
    then have ji: "j \<noteq> i" and jl: "j \<in> set (listeners s)"
      using Cons.prems(2,3) by auto
    from onMessage_listeners [of i msg s] show "j \<in> set (listeners ?s')"
      using ji jl by (auto simp: in_removeListener_other)
  qed
  have "client_inv (snd (emit rest msg ?s'))"
    using Cons.IH [OF inv' _ sub] Cons.prems(2) by simp
  then show ?case
    using inv' by (simp add: emit_Cons del: emit.simps)
qed

lemma executor_calls_length [simp]: "length (calls (executor i s)) = length (calls s)"
  by (simp add: executor_unfold)

lemma executor_connecting [simp]: "connecting (executor i s) = connecting s"
  by (simp add: executor_unfold)

lemma executor_connected [simp]: "connected (executor i s) = connected s"
  by (simp add: executor_unfold)

lemma executor_other: "j \<noteq> i \<Longrightarrow> calls (executor j s) ! i = calls s ! i"
  by (simp add: executor_unfold)

lemma executor_started_other:
  "j \<noteq> i \<Longrightarrow> started (calls (executor i s) ! j) = started (calls s ! j)"
  by (simp add: executor_unfold)

lemma inv_fold_executor:
  assumes "client_inv s" "connecting s = None" "waiters_ok (calls s) ws"
  shows "client_inv (fold executor ws s)"
  using assms
proof (induction ws arbitrary: s)
  case Nil
  then show ?case by simp
next
  case (Cons i rest)
  have i1: "client_inv (executor i s)"
    using Cons.prems by (intro inv_executor) (auto simp: waiters_ok_def)
  have i2: "waiters_ok (calls (executor i s)) rest"
    unfolding waiters_ok_def
  proof (intro conjI ballI)
    show "distinct rest" using Cons.prems(3) by (simp add: waiters_ok_def)
  next
    fix j assume j: "j \<in> set rest"
    then have "j \<noteq> i" using Cons.prems(3) by (auto simp: waiters_ok_def)
    then show "\<not> started (calls (executor i s) ! j)"
      using Cons.prems(3) j by (simp add: executor_started_other waiters_ok_def)
    show "j < length (calls (executor i s))"
      using Cons.prems(3) j by (simp add: waiters_ok_def)
  qed
  show ?case
    using Cons.IH [OF i1 _ i2] Cons.prems(2) by simp
qed

lemma inv_update_flags:
  "client_inv s \<Longrightarrow> client_inv (s\<lparr>connected := b, connecting := None\<rparr>)"
  by (simp add: client_inv_def transmitted_def)

lemma inv_connect_callback:
  assumes "client_inv s"
  shows "client_inv (connect_callback err s)"
proof (cases "connecting s")
  case None
  then show ?thesis using assms by (simp add: connect_callback_def)
next
  case (Some ws)
  let ?s0 = "s\<lparr>connected := (err = None), connecting := None\<rparr>"
  have "client_inv ?s0"
    using assms by (rule inv_update_flags)
  moreover have "waiters_ok (calls ?s0) ws"
    using assms Some by (simp add: inv_waiters)
  ultimately have "client_inv (fold executor ws ?s0)"
    by (intro inv_fold_executor) simp_all
  then show ?thesis using Some by (simp add: connect_callback_def)
qed

lemma inv_append_call:
  assumes inv: "client_inv s"
    and c: "\<not> started c" "timer c = NoTimer" "result c = None"
  shows "client_inv (s\<lparr>calls := calls s @ [c]\<rparr>)" (is "client_inv ?s1")
proof (rule client_invI)
  have tx: "transmitted ?s1 j = transmitted s j" for j by (simp add: transmitted_def)
  show "distinct (listeners ?s1)" using inv by (simp add: inv_distinct)
  show "j < length (calls ?s1)" if "j \<in> set (listeners ?s1)" for j
    using inv_listener_bound [OF inv, of j] that by simp
  have fresh: "length (calls s) \<notin> set (listeners s)"
    using inv_listener_bound [OF inv, of "length (calls s)"] by auto
  have ntx: "\<not> transmitted s (length (calls s))"
    using inv_transmitted_bound [OF inv, of "length (calls s)"] by auto
  show "call_ok (listeners ?s1) (transmitted ?s1 j) j (calls ?s1 ! j)"
    if j: "j < length (calls ?s1)" for j
  proof (cases "j < length (calls s)")
    case True
    then show ?thesis using inv_call [OF inv True] by (simp add: tx nth_append)
  next
    case False
    then have "j = length (calls s)" using j by simp
    then show ?thesis using c fresh ntx by (simp add: tx call_ok_def)
  qed
  show "waiters_ok (calls ?s1) ws" if "connecting ?s1 = Some ws" for ws
  proof -
    have "waiters_ok (calls s) ws" using inv that by (simp add: inv_waiters)
    then show ?thesis by (auto simp: waiters_ok_def nth_append)
  qed
  show "j < length (calls ?s1)" if "transmitted ?s1 j" for j
    using inv_transmitted_bound [OF inv, of j] that by (simp add: tx)
qed

lemma inv_reusePromise:
  assumes inv: "client_inv s" and len: "i < length (calls s)" and ns: "\<not> started (calls s ! i)"
    and nw: "\<forall>ws. connecting s = Some ws \<longrightarrow> i \<notin> set ws"
  shows "client_inv (reusePromise connect i s)"
proof (cases "connecting s")
  case None
  have "waiters_ok (calls s) [i]" using len ns by (simp add: waiters_ok_def)
  then show ?thesis
    using inv None by (simp add: reusePromise_def connect_def client_inv_def transmitted_def)
next
  case (Some ws)
  have "waiters_ok (calls s) ws" using inv Some by (rule inv_waiters)
  then have "waiters_ok (calls s) (ws @ [i])"
    using len ns nw Some by (simp add: waiters_ok_def)
  then show ?thesis
    using inv Some by (simp add: reusePromise_def client_inv_def transmitted_def)
qed

lemma inv_send:
  assumes "client_inv s"
  shows "client_inv (send d p m t s)"
proof -
  let ?c = "\<lparr>data = d, parse = p, match = m,
               timeout = (case t of None \<Rightarrow> Num 5000 | Some ms \<Rightarrow> ms),
               started = False, timer = NoTimer, result = None\<rparr>"
  let ?s1 = "s\<lparr>calls := calls s @ [?c]\<rparr>"
  have freshw: "\<forall>ws. connecting ?s1 = Some ws \<longrightarrow> length (calls s) \<notin> set ws"
    using assms by (auto simp: client_inv_def waiters_ok_def)
  have i1: "client_inv ?s1"
    using assms by (rule inv_append_call) simp_all
  show ?thesis
  proof (cases "connected s")
    case True
    have "client_inv (executor (length (calls s)) ?s1)"
      using i1 freshw by (intro inv_executor) simp_all
    then show ?thesis using True by (simp add: send_def isConnected_connected Let_def)
  next
    case False
    have "client_inv (reusePromise connect (length (calls s)) ?s1)"
      using i1 freshw by (intro inv_reusePromise) simp_all
    then show ?thesis using False by (simp add: send_def isConnected_connected Let_def)
  qed
qed

lemma inv_step:
  assumes "client_inv s"
  shows "client_inv (snd (step ev s))"
proof (cases ev)
  case (Invoke d p m t)
  then show ?thesis using assms by (simp add: inv_send)
next
  case (ConnectDone err)
  then show ?thesis using assms by (simp add: inv_connect_callback)
next
  case (Message msg)
  have "distinct (listeners s)" using assms by (rule inv_distinct)
  then show ?thesis using assms Message by (simp add: inv_emit)
next
  case (TimerFire i)
  then show ?thesis using assms by (simp add: inv_onTimeout)
next
  case (SendDone i err)
  then show ?thesis using assms by (simp add: inv_onSent)
qed

lemma reachable_inv: "reachable s \<Longrightarrow> client_inv s"
  by (induction rule: reachable.induct) (simp_all add: inv_Socket inv_step)

lemma inv_exec: "client_inv s \<Longrightarrow> client_inv (exec evs s)"
  by (induction evs arbitrary: s) (simp_all add: inv_step)

lemma reachable_exec: "reachable s \<Longrightarrow> reachable (exec evs s)"
  by (induction evs arbitrary: s) (simp_all add: reachable_step)

subsection \<open>Frames, settled calls and what settles a call\<close>

lemma clear_not_armed: "\<not> is_armed t \<Longrightarrow> clearTimeout t = t"
  by (cases t) simp_all

lemma resolve_Some [simp]: "resolve v (Some x) = Some x"
  by (simp add: resolve_def)

lemma reject_Some [simp]: "reject e (Some x) = Some x"
  by (simp add: reject_def)

lemma resolve_None [simp]: "resolve v None = Some (Resolved v)"
  by (simp add: resolve_def)

lemma reject_None [simp]: "reject e None = Some (Rejected e)"
  by (simp add: reject_def)

text \<open>Frame: a callback of call \<open>j\<close> leaves every other call alone.\<close>

lemma onMessage_other: "j \<noteq> i \<Longrightarrow> calls (snd (onMessage j msg s)) ! i = calls s ! i"
  by (simp add: onMessage_def Let_def split: sum.splits)

lemma onTimeout_other: "j \<noteq> i \<Longrightarrow> calls (onTimeout j s) ! i = calls s ! i"
  by (simp add: onTimeout_def Let_def)

lemma onSent_other: "j \<noteq> i \<Longrightarrow> calls (onSent j err s) ! i = calls s ! i"
  by (simp add: onSent_def Let_def split: option.splits)

lemma emit_other: "i \<notin> set ls \<Longrightarrow> calls (snd (emit ls msg s)) ! i = calls s ! i"
proof (induction ls arbitrary: s)
  case Nil
  then show ?case by simp
next
  case (Cons j rest)
  then have "calls (snd (emit rest msg (snd (onMessage j msg s)))) ! i = calls s ! i"
    by (simp add: onMessage_other)
  then show ?case
    using Cons.prems by (simp add: emit_Cons onMessage_other del: emit.simps)
qed

lemma fold_executor_other: "i \<notin> set ws \<Longrightarrow> calls (fold executor ws s) ! i = calls s ! i"
  by (induction ws arbitrary: s) (simp_all add: executor_other)

lemma fold_executor_length [simp]: "length (calls (fold executor ws s)) = length (calls s)"
  by (induction ws arbitrary: s) simp_all

lemma fold_executor_flags [simp]:
  "connected (fold executor ws s) = connected s"
  "connecting (fold executor ws s) = connecting s"
  by (induction ws arbitrary: s) simp_all

lemma emit_length [simp]: "length (calls (snd (emit ls msg s))) = length (calls s)"
proof (induction ls arbitrary: s)
  case Nil
  then show ?case by simp
next
  case (Cons j rest)
  have "length (calls (snd (emit rest msg (snd (onMessage j msg s))))) = length (calls s)"
    by (simp add: Cons.IH)
  then show ?case
    by (simp add: emit_Cons del: emit.simps)
qed

lemma send_old_call:
  "i < length (calls s) \<Longrightarrow> calls (send d p m t s) ! i = calls s ! i"
  by (simp add: send_def Let_def executor_unfold reusePromise_def connect_def nth_append
      split: option.splits)

lemma send_length [simp]: "length (calls (send d p m t s)) = Suc (length (calls s))"
  by (simp add: send_def Let_def executor_unfold reusePromise_def connect_def
      split: option.splits)

lemma step_length: "length (calls s) \<le> length (calls (snd (step ev s)))"
  by (cases ev) (simp_all add: connect_callback_def onTimeout_def onSent_def Let_def
      split: option.splits)

lemma exec_length: "length (calls s) \<le> length (calls (exec evs s))"
proof (induction evs arbitrary: s)
  case Nil
  then show ?case by simp
next
  case (Cons ev evs)
  show ?case using step_length [of s ev] Cons.IH [of "snd (step ev s)"] by simp
qed

text \<open>The result of a settled call never changes: the first settlement wins.\<close>

lemma executor_result_kept:
  "result (calls s ! i) = Some x \<Longrightarrow> result (calls (executor j s) ! i) = Some x"
proof (cases "j = i \<and> i < length (calls s)")
  case True
  assume "result (calls s ! i) = Some x"
  then show ?thesis using True by (simp add: executor_unfold)
next
  case False
  assume "result (calls s ! i) = Some x"
  then show ?thesis using False
    by (cases "j = i") (simp_all add: executor_unfold list_update_beyond not_less)
qed

lemma fold_executor_result_kept:
  "result (calls s ! i) = Some x \<Longrightarrow> result (calls (fold executor ws s) ! i) = Some x"
  by (induction ws arbitrary: s) (simp_all add: executor_result_kept)

lemma onMessage_result_kept:
  "i < length (calls s) \<Longrightarrow> result (calls s ! i) = Some x \<Longrightarrow>
   result (calls (snd (onMessage j msg s)) ! i) = Some x"
  by (cases "j = i") (simp_all add: onMessage_def Let_def split: sum.splits)

lemma emit_result_kept:
  "i < length (calls s) \<Longrightarrow> result (calls s ! i) = Some x \<Longrightarrow>
   result (calls (snd (emit ls msg s)) ! i) = Some x"
proof (induction ls arbitrary: s)
  case Nil
  then show ?case by simp
next
  case (Cons j rest)
  have k: "result (calls (snd (onMessage j msg s)) ! i) = Some x"
    using Cons.prems by (rule onMessage_result_kept)
  then have "result (calls (snd (emit rest msg (snd (onMessage j msg s)))) ! i) = Some x"
    using Cons.prems by (intro Cons.IH) simp_all
  then show ?case using k by (simp add: emit_Cons del: emit.simps)
qed

lemma step_result_kept:
  assumes "i < length (calls s)" "result (calls s ! i) = Some x"
  shows "result (calls (snd (step ev s)) ! i) = Some x"
proof (cases ev)
  case (Invoke d p m t)
  then show ?thesis using assms by (simp add: send_old_call)
next
  case (ConnectDone err)
  then show ?thesis using assms
    by (simp add: connect_callback_def fold_executor_result_kept split: option.splits)
next
  case (Message msg)
  then show ?thesis using assms by (simp add: emit_result_kept)
next
  case (TimerFire j)
  then show ?thesis using assms
    by (cases "j = i") (simp_all add: onTimeout_def Let_def)
next
  case (SendDone j err)
  then show ?thesis using assms
    by (cases "j = i") (simp_all add: onSent_def Let_def split: option.splits)
qed

lemma exec_result_kept:
  assumes "i < length (calls s)" "result (calls s ! i) = Some x"
  shows "result (calls (exec evs s) ! i) = Some x"
  using assms
proof (induction evs arbitrary: s)
  case Nil
  then show ?case by simp
next
  case (Cons ev evs)
  have "i < length (calls (snd (step ev s)))"
    using Cons.prems(1) step_length [of s ev] by simp
  moreover have "result (calls (snd (step ev s)) ! i) = Some x"
    using Cons.prems by (rule step_result_kept)
  ultimately show ?case by (simp add: Cons.IH)
qed

text \<open>What \<open>socket.send\<close> has accepted stays accepted.\<close>

lemma executor_sent: "set (sent s) \<subseteq> set (sent (executor j s))"
  by (auto simp: executor_unfold)

lemma fold_executor_sent: "set (sent s) \<subseteq> set (sent (fold executor ws s))"
proof (induction ws arbitrary: s)
  case Nil
  then show ?case by simp
next
  case (Cons j rest)
  show ?case using executor_sent [of s j] Cons.IH [of "executor j s"] by auto
qed

lemma onMessage_sent [simp]: "sent (snd (onMessage j msg s)) = sent s"
  by (simp add: onMessage_def Let_def split: sum.splits)

lemma emit_sent [simp]: "sent (snd (emit ls msg s)) = sent s"
proof (induction ls arbitrary: s)
  case Nil
  then show ?case by simp
next
  case (Cons j rest)
  have "sent (snd (emit rest msg (snd (onMessage j msg s)))) = sent s"
    by (simp add: Cons.IH)
  then show ?case by (simp add: emit_Cons del: emit.simps)
qed

lemma step_sent: "set (sent s) \<subseteq> set (sent (snd (step ev s)))"
proof (cases ev)
  case (Invoke d p m t)
  then show ?thesis
    using executor_sent [of "s\<lparr>calls := calls s @ [\<lparr>data = d, parse = p, match = m,
               timeout = (case t of None \<Rightarrow> Num 5000 | Some ms \<Rightarrow> ms),
               started = False, timer = NoTimer, result = None\<rparr>]\<rparr>" "length (calls s)"]
    by (simp add: send_def Let_def reusePromise_def connect_def split: option.splits)
next
  case (ConnectDone err)
  then show ?thesis
    using fold_executor_sent [of "s\<lparr>connected := (err = None), connecting := None\<rparr>"]
    by (simp add: connect_callback_def split: option.splits)
next
  case (Message msg)
  then show ?thesis by simp
next
  case (TimerFire j)
  then show ?thesis by (simp add: onTimeout_def Let_def)
next
  case (SendDone j err)
  then show ?thesis by (simp add: onSent_def Let_def split: option.splits)
qed

lemma exec_transmitted: "transmitted s i \<Longrightarrow> transmitted (exec evs s) i"
proof (induction evs arbitrary: s)
  case Nil
  then show ?case by simp
next
  case (Cons ev evs)
  have "transmitted (snd (step ev s)) i"
    using Cons.prems step_sent [of s ev] by (auto simp: transmitted_def)
  then show ?case by (simp add: Cons.IH)
qed

text \<open>
  A call that has started and is pending was accepted by \<open>socket.send\<close>; when such a call
  is settled, its listener is gone and its timer is not armed.
\<close>

lemma pending_transmitted:
  assumes "client_inv s" "i < length (calls s)" "started (calls s ! i)"
    "result (calls s ! i) = None"
  shows "transmitted s i"
proof -
  have "call_ok (listeners s) (transmitted s i) i (calls s ! i)"
    using assms(1,2) by (rule inv_call)
  then show ?thesis using assms(3,4) by (simp add: call_ok_def)
qed

lemma transmitted_settled_clean:
  assumes "client_inv s" "transmitted s i" "result (calls s ! i) = Some x"
  shows "i \<notin> set (listeners s) \<and> \<not> is_armed (timer (calls s ! i))"
proof -
  have "i < length (calls s)" using assms(1,2) by (rule inv_transmitted_bound)
  with assms(1) have "call_ok (listeners s) (transmitted s i) i (calls s ! i)"
    by (rule inv_call)
  then show ?thesis using assms(2,3) by (simp add: call_ok_def)
qed

lemma transmitted_pending_listening:
  assumes "client_inv s" "transmitted s i" "result (calls s ! i) = None"
  shows "i \<in> set (listeners s) \<and> is_armed (timer (calls s ! i)) = truthy (timeout (calls s ! i))"
proof -
  have "i < length (calls s)" using assms(1,2) by (rule inv_transmitted_bound)
  with assms(1) have "call_ok (listeners s) (transmitted s i) i (calls s ! i)"
    by (rule inv_call)
  then show ?thesis using assms(2,3) by (simp add: call_ok_def)
qed

lemma listening_started:
  assumes "client_inv s" "i \<in> set (listeners s)"
  shows "i < length (calls s) \<and> started (calls s ! i)"
proof -
  have len: "i < length (calls s)" using assms by (rule inv_listener_bound)
  with assms(1) have "call_ok (listeners s) (transmitted s i) i (calls s ! i)"
    by (rule inv_call)
  then have "started (calls s ! i)"
    using assms(2) by (cases "started (calls s ! i)") (simp_all add: call_ok_def)
  then show ?thesis using len by simp
qed

lemma falsy_no_timer:
  assumes "client_inv s" "i < length (calls s)" "\<not> truthy (timeout (calls s ! i))"
  shows "timer (calls s ! i) = NoTimer"
proof -
  have "call_ok (listeners s) (transmitted s i) i (calls s ! i)"
    using assms(1,2) by (rule inv_call)
  then show ?thesis using assms(3) by (simp add: call_ok_def)
qed

text \<open>The arguments of a call never change.\<close>

lemma same_args_refl [simp]: "same_args c c"
  by (simp add: same_args_def)

lemma same_args_trans: "same_args a b \<Longrightarrow> same_args b c \<Longrightarrow> same_args a c"
  by (simp add: same_args_def)

lemma onMessage_args:
  "i < length (calls s) \<Longrightarrow> same_args (calls s ! i) (calls (snd (onMessage j msg s)) ! i)"
  by (cases "j = i") (simp_all add: onMessage_def Let_def same_args_def split: sum.splits)

lemma executor_args:
  "i < length (calls s) \<Longrightarrow> same_args (calls s ! i) (calls (executor j s) ! i)"
  by (cases "j = i") (simp_all add: executor_unfold same_args_def)

lemma emit_args:
  "i < length (calls s) \<Longrightarrow> same_args (calls s ! i) (calls (snd (emit ls msg s)) ! i)"
proof (induction ls arbitrary: s)
  case Nil
  then show ?case by simp
next
  case (Cons j rest)
  have "same_args (calls (snd (onMessage j msg s)) ! i)
          (calls (snd (emit rest msg (snd (onMessage j msg s)))) ! i)"
    using Cons.prems by (intro Cons.IH) simp
  then have "same_args (calls s ! i) (calls (snd (emit rest msg (snd (onMessage j msg s)))) ! i)"
    using onMessage_args [OF Cons.prems, of j msg] same_args_trans by blast
  then show ?case
    using onMessage_args [OF Cons.prems, of j msg] by (simp add: emit_Cons del: emit.simps)
qed

lemma fold_executor_args:
  "i < length (calls s) \<Longrightarrow> same_args (calls s ! i) (calls (fold executor ws s) ! i)"
proof (induction ws arbitrary: s)
  case Nil
  then show ?case by simp
next
  case (Cons j rest)
  have "same_args (calls (executor j s) ! i) (calls (fold executor rest (executor j s)) ! i)"
    using Cons.prems by (intro Cons.IH) simp
  then show ?case
    using executor_args [OF Cons.prems, of j] same_args_trans by fastforce
qed

lemma step_args:
  assumes "i < length (calls s)"
  shows "same_args (calls s ! i) (calls (snd (step ev s)) ! i)"
proof (cases ev)
  case (Invoke d p m t)
  then show ?thesis using assms by (simp add: send_old_call)
next
  case (ConnectDone err)
  then show ?thesis
    using assms fold_executor_args [of i "s\<lparr>connected := (err = None), connecting := None\<rparr>"]
    by (simp add: connect_callback_def split: option.splits)
next
  case (Message msg)
  then show ?thesis using assms by (simp add: emit_args)
next
  case (TimerFire j)
  then show ?thesis using assms
    by (cases "j = i") (simp_all add: onTimeout_def Let_def same_args_def)
next
  case (SendDone j err)
  then show ?thesis using assms
    by (cases "j = i") (simp_all add: onSent_def Let_def same_args_def split: option.splits)
qed

lemma exec_args:
  "i < length (calls s) \<Longrightarrow> same_args (calls s ! i) (calls (exec evs s) ! i)"
proof (induction evs arbitrary: s)
  case Nil
  then show ?case by simp
next
  case (Cons ev evs)
  have "i < length (calls (snd (step ev s)))"
    using Cons.prems step_length [of s ev] by simp
  then have "same_args (calls (snd (step ev s)) ! i) (calls (exec evs (snd (step ev s))) ! i)"
    by (rule Cons.IH)
  then show ?case
    using step_args [OF Cons.prems, of ev] same_args_trans by fastforce
qed

lemma onMessage_parse: "parse (calls (snd (onMessage k msg s)) ! j) = parse (calls s ! j)"
proof (cases "k = j \<and> j < length (calls s)")
  case True
  then show ?thesis by (simp add: onMessage_def Let_def split: sum.splits)
next
  case False
  then show ?thesis
    by (cases "k = j")
      (simp_all add: onMessage_def Let_def list_update_beyond not_less split: sum.splits)
qed

text \<open>What settles a pending call.\<close>

lemma onMessage_settles:
  assumes "i < length (calls s)" "result (calls s ! i) = None"
    "result (calls (snd (onMessage j msg s)) ! i) = Some x"
  shows "j = i \<and> (\<exists>v. parse (calls s ! i) msg = Inr v \<and> match (calls s ! i) v \<and> x = Resolved v)"
proof (cases "j = i")
  case True
  then show ?thesis using assms
    by (auto simp: onMessage_def Let_def split: sum.splits if_splits)
next
  case False
  then show ?thesis using assms by (simp add: onMessage_other)
qed

lemma emit_settles:
  assumes "i < length (calls s)" "result (calls s ! i) = None"
    "result (calls (snd (emit ls msg s)) ! i) = Some x"
  shows "\<exists>v. parse (calls s ! i) msg = Inr v \<and> match (calls s ! i) v \<and> x = Resolved v"
  using assms
proof (induction ls arbitrary: s)
  case Nil
  then show ?case by simp
next
  case (Cons j rest)
  let ?s' = "snd (onMessage j msg s)"
  show ?case
  proof (cases "result (calls ?s' ! i)")
    case None
    have len: "i < length (calls ?s')" using Cons.prems(1) by simp
    have fin: "result (calls (snd (emit rest msg ?s')) ! i) = Some x"
    proof (cases "fst (onMessage j msg s) = None")
      case True
      then show ?thesis using Cons.prems(3) by (simp add: emit_Cons del: emit.simps)
    next
      case False
      then have "emit (j # rest) msg s = onMessage j msg s"
        by (auto simp: emit_Cons simp del: emit.simps)
      then show ?thesis using Cons.prems(3) None by simp
    qed
    from Cons.IH [OF len None fin]
    obtain v where "parse (calls ?s' ! i) msg = Inr v" "match (calls ?s' ! i) v" "x = Resolved v"
      by blast
    then show ?thesis
      using onMessage_args [OF Cons.prems(1), of j msg] by (auto simp: same_args_def)
  next
    case (Some y)
    have len: "i < length (calls ?s')" using Cons.prems(1) by simp
    have "result (calls (snd (emit rest msg ?s')) ! i) = Some y"
      using len Some by (rule emit_result_kept)
    then have "x = y"
      using Cons.prems(3) Some by (simp add: emit_Cons del: emit.simps split: if_splits)
    then show ?thesis
      using onMessage_settles [OF Cons.prems(1,2), of j msg y] Some by simp
  qed
qed

lemma executor_settles:
  assumes "result (calls s ! i) = None" "result (calls (executor j s) ! i) = Some x"
  shows "j = i \<and> \<not> connected s \<and> x = Rejected ERR_SOCKET_BAD_PORT"
proof (cases "j = i \<and> i < length (calls s)")
  case True
  then show ?thesis using assms by (auto simp: executor_unfold split: if_splits)
next
  case False
  then have "calls (executor j s) ! i = calls s ! i"
    by (cases "j = i") (simp_all add: executor_unfold list_update_beyond not_less)
  then show ?thesis using assms by simp
qed

lemma fold_executor_settles:
  assumes "result (calls s ! i) = None" "result (calls (fold executor ws s) ! i) = Some x"
  shows "i \<in> set ws \<and> \<not> connected s \<and> x = Rejected ERR_SOCKET_BAD_PORT"
  using assms
proof (induction ws arbitrary: s)
  case Nil
  then show ?case by simp
next
  case (Cons j rest)
  show ?case
  proof (cases "result (calls (executor j s) ! i)")
    case None
    have "i \<in> set rest \<and> \<not> connected (executor j s) \<and> x = Rejected ERR_SOCKET_BAD_PORT"
      using None Cons.prems(2) by (intro Cons.IH) simp_all
    then show ?thesis by simp
  next
    case (Some y)
    then have "result (calls (fold executor rest (executor j s)) ! i) = Some y"
      by (rule fold_executor_result_kept)
    then have "x = y" using Cons.prems(2) by simp
    then show ?thesis using executor_settles [OF Cons.prems(1) Some] by simp
  qed
qed

lemma step_settles:
  assumes "client_inv s" "i < length (calls s)" "result (calls s ! i) = None"
    "result (calls (snd (step ev s)) ! i) = Some x"
  shows "(\<exists>msg v. ev = Message msg \<and> parse (calls s ! i) msg = Inr v \<and>
            match (calls s ! i) v \<and> x = Resolved v) \<or>
         (ev = TimerFire i \<and> is_armed (timer (calls s ! i)) \<and>
            x = Rejected (new_Error ''Socket timeout'')) \<or>
         (\<exists>e. ev = SendDone i (Some e) \<and> x = Rejected e) \<or>
         (\<exists>err. ev = ConnectDone (Some err) \<and> \<not> started (calls s ! i) \<and>
            x = Rejected ERR_SOCKET_BAD_PORT)"
proof (cases ev)
  case (Invoke d p m t)
  then show ?thesis using assms by (simp add: send_old_call)
next
  case (ConnectDone err)
  show ?thesis
  proof (cases "connecting s")
    case None
    then show ?thesis using assms(3,4) ConnectDone by (simp add: connect_callback_def)
  next
    case (Some ws)
    let ?s0 = "s\<lparr>connected := (err = None), connecting := None\<rparr>"
    have fin: "result (calls (fold executor ws ?s0) ! i) = Some x"
      using assms(4) ConnectDone Some by (simp add: connect_callback_def)
    have "result (calls ?s0 ! i) = None" using assms(3) by simp
    from fold_executor_settles [OF this fin]
    have iw: "i \<in> set ws" and ne: "err \<noteq> None" and x: "x = Rejected ERR_SOCKET_BAD_PORT"
      by simp_all
    have "waiters_ok (calls s) ws" using assms(1) Some by (rule inv_waiters)
    then have "\<not> started (calls s ! i)" using iw by (simp add: waiters_ok_def)
    then show ?thesis using ConnectDone ne x by auto
  qed
next
  case (Message msg)
  then show ?thesis using emit_settles [OF assms(2,3), of "listeners s" msg x] assms(4) by simp
next
  case (TimerFire j)
  then show ?thesis using assms
    by (cases "j = i") (auto simp: onTimeout_def Let_def split: if_splits)
next
  case (SendDone j err)
  then show ?thesis using assms
    by (cases "j = i") (auto simp: onSent_def Let_def split: if_splits option.splits)
qed

lemma step_started_kept:
  assumes "i < length (calls s)" "started (calls s ! i)"
  shows "started (calls (snd (step ev s)) ! i)"
proof (cases ev)
  case (Invoke d p m t)
  then show ?thesis using assms by (simp add: send_old_call)
next
  case (ConnectDone err)
  have "started (calls (fold executor ws t) ! i)"
    if "started (calls t ! i)" "i < length (calls t)" for ws and t :: "'a client"
    using that
  proof (induction ws arbitrary: t)
    case Nil
    then show ?case by simp
  next
    case (Cons k rest)
    have "started (calls (executor k t) ! i)"
      using Cons.prems by (cases "k = i") (simp_all add: executor_unfold)
    then show ?case using Cons.prems(2) by (simp add: Cons.IH)
  qed
  then show ?thesis using assms ConnectDone
    by (simp add: connect_callback_def split: option.splits)
next
  case (Message msg)
  have "started (calls (snd (emit ls msg t)) ! i)"
    if "started (calls t ! i)" "i < length (calls t)" for ls and t :: "'a client"
    using that
  proof (induction ls arbitrary: t)
    case Nil
    then show ?case by simp
  next
    case (Cons k rest)
    have "started (calls (snd (onMessage k msg t)) ! i)"
      using Cons.prems
      by (cases "k = i") (simp_all add: onMessage_def Let_def split: sum.splits)
    then have "started (calls (snd (emit rest msg (snd (onMessage k msg t)))) ! i)"
      using Cons.prems(2) by (intro Cons.IH) simp_all
    then show ?case
      using \<open>started (calls (snd (onMessage k msg t)) ! i)\<close>
      by (simp add: emit_Cons del: emit.simps)
  qed
  then show ?thesis using assms Message by simp
next
  case (TimerFire j)
  then show ?thesis using assms
    by (cases "j = i") (simp_all add: onTimeout_def Let_def)
next
  case (SendDone j err)
  then show ?thesis using assms
    by (cases "j = i") (simp_all add: onSent_def Let_def split: option.splits)
qed

text \<open>
  What has settled a call that was pending: a datagram that its \<open>parse\<close> accepted and
  its \<open>match\<close> approved, its timer, an error reported to its \<open>socket.send\<close> callback,
  or, for a call that was awaiting the connect step, the exception of \<open>socket.send\<close>
  after a failed connect.
\<close>

lemma exec_settles:
  assumes "client_inv s" "i < length (calls s)" "result (calls s ! i) = None"
    "result (calls (exec evs s) ! i) = Some x"
  shows "(\<exists>msg v. Message msg \<in> set evs \<and> parse (calls s ! i) msg = Inr v \<and>
            match (calls s ! i) v \<and> x = Resolved v) \<or>
         (TimerFire i \<in> set evs \<and> truthy (timeout (calls s ! i)) \<and>
            x = Rejected (new_Error ''Socket timeout'')) \<or>
         (\<exists>e. SendDone i (Some e) \<in> set evs \<and> x = Rejected e) \<or>
         (\<not> started (calls s ! i) \<and> (\<exists>err. ConnectDone (Some err) \<in> set evs) \<and>
            x = Rejected ERR_SOCKET_BAD_PORT)"
  using assms
proof (induction evs arbitrary: s)
  case Nil
  then show ?case by simp
next
  case (Cons ev evs)
  let ?s' = "snd (step ev s)"
  have inv': "client_inv ?s'" using Cons.prems(1) by (rule inv_step)
  have len': "i < length (calls ?s')" using Cons.prems(2) step_length [of s ev] by simp
  have args: "same_args (calls s ! i) (calls ?s' ! i)" using Cons.prems(2) by (rule step_args)
  show ?case
  proof (cases "result (calls ?s' ! i)")
    case None
    have "(\<exists>msg v. Message msg \<in> set evs \<and> parse (calls ?s' ! i) msg = Inr v \<and>
            match (calls ?s' ! i) v \<and> x = Resolved v) \<or>
         (TimerFire i \<in> set evs \<and> truthy (timeout (calls ?s' ! i)) \<and>
            x = Rejected (new_Error ''Socket timeout'')) \<or>
         (\<exists>e. SendDone i (Some e) \<in> set evs \<and> x = Rejected e) \<or>
         (\<not> started (calls ?s' ! i) \<and> (\<exists>err. ConnectDone (Some err) \<in> set evs) \<and>
            x = Rejected ERR_SOCKET_BAD_PORT)"
      using Cons.prems(4) by (intro Cons.IH [OF inv' len' None]) simp
    moreover have "\<not> started (calls s ! i)" if "\<not> started (calls ?s' ! i)"
      using that step_started_kept [OF Cons.prems(2), of ev] by blast
    ultimately show ?thesis using args by (auto simp: same_args_def)
  next
    case (Some y)
    have "result (calls (exec evs ?s') ! i) = Some y"
      using len' Some by (rule exec_result_kept)
    then have xy: "x = y" using Cons.prems(4) Some by simp
    have ok: "call_ok (listeners s) (transmitted s i) i (calls s ! i)"
      using Cons.prems(1,2) by (rule inv_call)
    have tr: "truthy (timeout (calls s ! i))" if "is_armed (timer (calls s ! i))"
    proof (rule ccontr)
      assume "\<not> truthy (timeout (calls s ! i))"
      with Cons.prems(1,2) have "timer (calls s ! i) = NoTimer" by (rule falsy_no_timer)
      with that show False by simp
    qed
    from step_settles [OF Cons.prems(1,2,3) Some]
    show ?thesis
    proof (elim disjE exE conjE)
      fix msg v
      assume "ev = Message msg" "parse (calls s ! i) msg = Inr v" "match (calls s ! i) v"
        "y = Resolved v"
      then show ?thesis using xy by auto
    next
      assume "ev = TimerFire i" "is_armed (timer (calls s ! i))"
        "y = Rejected (new_Error ''Socket timeout'')"
      then show ?thesis using xy tr by auto
    next
      fix e
      assume "ev = SendDone i (Some e)" "y = Rejected e"
      then show ?thesis using xy by auto
    next
      fix err
      assume "ev = ConnectDone (Some err)" "\<not> started (calls s ! i)"
        "y = Rejected ERR_SOCKET_BAD_PORT"
      then show ?thesis using xy by auto
    qed
  qed
qed

text \<open>
  A started call that is settled, with its listener removed and its timer not armed, is
  never changed again, and its listener is never registered again.
\<close>

lemma step_listeners_grow:
  assumes "client_inv s" "i < length (calls s)" "started (calls s ! i)"
    "i \<notin> set (listeners s)"
  shows "i \<notin> set (listeners (snd (step ev s)))"
proof (cases ev)
  case (Invoke d p m t)
  then show ?thesis using assms(2,4)
    by (simp add: send_def Let_def executor_unfold reusePromise_def connect_def
        split: option.splits)
next
  case (ConnectDone err)
  show ?thesis
  proof (cases "connecting s")
    case None
    then show ?thesis using assms(4) ConnectDone by (simp add: connect_callback_def)
  next
    case (Some ws)
    have "waiters_ok (calls s) ws" using assms(1) Some by (rule inv_waiters)
    then have "i \<notin> set ws" using assms(3) by (auto simp: waiters_ok_def)
    moreover have "listeners (fold executor ws t) = listeners t @ ws" for t :: "'a client"
      by (induction ws arbitrary: t) (simp_all add: executor_unfold)
    ultimately show ?thesis using assms(4) ConnectDone Some
      by (simp add: connect_callback_def)
  qed
next
  case (Message msg)
  have "set (listeners (snd (emit ls msg t))) \<subseteq> set (listeners t)" for ls and t :: "'a client"
  proof (induction ls arbitrary: t)
    case Nil
    then show ?case by simp
  next
    case (Cons k rest)
    have "set (listeners (snd (onMessage k msg t))) \<subseteq> set (listeners t)"
      using onMessage_listeners [of k msg t] removeListener_subset [of k "listeners t"] by auto
    then show ?case
      using Cons.IH [of "snd (onMessage k msg t)"] by (auto simp: emit_Cons simp del: emit.simps)
  qed
  then show ?thesis using assms(4) Message by auto
next
  case (TimerFire j)
  then show ?thesis
    using assms(4) removeListener_subset [of j "listeners s"]
    by (auto simp: onTimeout_def Let_def)
next
  case (SendDone j err)
  then show ?thesis
    using assms(4) removeListener_subset [of j "listeners s"]
    by (auto simp: onSent_def Let_def split: option.splits)
qed

lemma step_call_frozen:
  assumes "client_inv s" "i < length (calls s)" "started (calls s ! i)"
    "result (calls s ! i) = Some x" "\<not> is_armed (timer (calls s ! i))"
    "i \<notin> set (listeners s)"
  shows "calls (snd (step ev s)) ! i = calls s ! i"
proof (cases ev)
  case (Invoke d p m t)
  then show ?thesis using assms(2) by (simp add: send_old_call)
next
  case (ConnectDone err)
  show ?thesis
  proof (cases "connecting s")
    case None
    then show ?thesis using ConnectDone by (simp add: connect_callback_def)
  next
    case (Some ws)
    have "waiters_ok (calls s) ws" using assms(1) Some by (rule inv_waiters)
    then have "i \<notin> set ws" using assms(3) by (auto simp: waiters_ok_def)
    then show ?thesis using ConnectDone Some
      by (simp add: connect_callback_def fold_executor_other)
  qed
next
  case (Message msg)
  then show ?thesis using assms(6) by (simp add: emit_other)
next
  case (TimerFire j)
  then show ?thesis using assms(5) by (cases "j = i") (simp_all add: onTimeout_other)
next
  case (SendDone j err)
  show ?thesis
  proof (cases "j = i")
    case True
    then show ?thesis using SendDone assms(2,4,5)
      by (simp add: onSent_def Let_def clear_not_armed split: option.splits)
  next
    case False
    then show ?thesis using SendDone by (simp add: onSent_other)
  qed
qed

lemma exec_call_frozen:
  assumes "client_inv s" "i < length (calls s)" "started (calls s ! i)"
    "result (calls s ! i) = Some x" "\<not> is_armed (timer (calls s ! i))"
    "i \<notin> set (listeners s)"
  shows "calls (exec evs s) ! i = calls s ! i \<and> i \<notin> set (listeners (exec evs s))"
  using assms
proof (induction evs arbitrary: s)
  case Nil
  then show ?case by simp
next
  case (Cons ev evs)
  let ?s' = "snd (step ev s)"
  have eq: "calls ?s' ! i = calls s ! i"
    using Cons.prems by (rule step_call_frozen)
  have "calls (exec evs ?s') ! i = calls ?s' ! i \<and> i \<notin> set (listeners (exec evs ?s'))"
  proof (rule Cons.IH)
    show "client_inv ?s'" using Cons.prems(1) by (rule inv_step)
    show "i < length (calls ?s')" using Cons.prems(2) step_length [of s ev] by simp
    show "started (calls ?s' ! i)" using eq Cons.prems(3) by simp
    show "result (calls ?s' ! i) = Some x" using eq Cons.prems(4) by simp
    show "\<not> is_armed (timer (calls ?s' ! i))" using eq Cons.prems(5) by simp
    show "i \<notin> set (listeners ?s')" using Cons.prems(1,2,3,6) by (rule step_listeners_grow)
  qed
  then show ?case using eq by simp
qed

text \<open>An exception of \<open>parse\<close> leaves the listener and ends the emission.\<close>

lemma onMessage_listeners_other:
  "j \<noteq> i \<Longrightarrow> (i \<in> set (listeners (snd (onMessage j msg s)))) = (i \<in> set (listeners s))"
  by (simp add: onMessage_def Let_def in_removeListener_other split: sum.splits)

lemma onMessage_throws:
  "parse (calls s ! i) msg = Inl e \<Longrightarrow> onMessage i msg s = (Some e, s)"
  by (simp add: onMessage_def Let_def)

lemma emit_throws:
  assumes "i \<in> set ls" "parse (calls s ! i) msg = Inl e" "i \<in> set (listeners s)"
  shows "fst (emit ls msg s) \<noteq> None \<and> calls (snd (emit ls msg s)) ! i = calls s ! i \<and>
         i \<in> set (listeners (snd (emit ls msg s)))"
  using assms
proof (induction ls arbitrary: s)
  case Nil
  then show ?case by simp
next
  case (Cons j rest)
  show ?case
  proof (cases "j = i")
    case True
    then show ?thesis
      using Cons.prems(2,3) by (simp add: emit_Cons onMessage_throws del: emit.simps)
  next
    case False
    let ?s' = "snd (onMessage j msg s)"
    have same: "calls ?s' ! i = calls s ! i" using False by (rule onMessage_other)
    have lis: "i \<in> set (listeners ?s')"
      using False Cons.prems(3) by (simp add: onMessage_listeners_other)
    have "fst (emit rest msg ?s') \<noteq> None \<and> calls (snd (emit rest msg ?s')) ! i = calls ?s' ! i \<and>
         i \<in> set (listeners (snd (emit rest msg ?s')))"
      using Cons.prems False same lis by (intro Cons.IH) simp_all
    then show ?thesis
      using same lis by (simp add: emit_Cons del: emit.simps)
  qed
qed

text \<open>
  An emission reaches the listener of call \<open>i\<close> when no listener called before it throws;
  a pending call whose \<open>match\<close> approves the parsed datagram is then resolved, whatever
  the listeners called after it do.
\<close>

lemma onMessage_returns:
  "parse (calls s ! k) msg = Inr w \<Longrightarrow> fst (onMessage k msg s) = None"
  by (simp add: onMessage_def Let_def)

lemma onMessage_resolves:
  assumes "i < length (calls s)" "result (calls s ! i) = None"
    "parse (calls s ! i) msg = Inr v" "match (calls s ! i) v"
  shows "result (calls (snd (onMessage i msg s)) ! i) = Some (Resolved v)"
  using assms by (simp add: onMessage_def Let_def)

lemma emit_resolves:
  assumes "i \<in> set ls"
    "\<forall>j\<in>set (takeWhile (\<lambda>j. j \<noteq> i) ls). \<exists>w. parse (calls s ! j) msg = Inr w"
    "i < length (calls s)" "result (calls s ! i) = None"
    "parse (calls s ! i) msg = Inr v" "match (calls s ! i) v"
  shows "result (calls (snd (emit ls msg s)) ! i) = Some (Resolved v)"
  using assms
proof (induction ls arbitrary: s)
  case Nil
  then show ?case by simp
next
  case (Cons k rest)
  let ?s' = "snd (onMessage k msg s)"
  have len: "i < length (calls ?s')" using Cons.prems(3) by simp
  show ?case
  proof (cases "k = i")
    case True
    have r: "result (calls ?s' ! i) = Some (Resolved v)"
      using True Cons.prems(3,4,5,6) by (simp add: onMessage_resolves)
    with len have "result (calls (snd (emit rest msg ?s')) ! i) = Some (Resolved v)"
      by (rule emit_result_kept)
    then show ?thesis using r by (simp add: emit_Cons del: emit.simps)
  next
    case False
    from Cons.prems(2) False obtain w where "parse (calls s ! k) msg = Inr w" by auto
    then have r: "fst (onMessage k msg s) = None" by (rule onMessage_returns)
    have same: "calls ?s' ! i = calls s ! i" using False by (rule onMessage_other)
    have "result (calls (snd (emit rest msg ?s')) ! i) = Some (Resolved v)"
    proof (rule Cons.IH)
      show "i \<in> set rest" using Cons.prems(1) False by simp
      show "\<forall>j\<in>set (takeWhile (\<lambda>j. j \<noteq> i) rest). \<exists>w. parse (calls ?s' ! j) msg = Inr w"
        using Cons.prems(2) False by (simp add: onMessage_parse)
      show "i < length (calls ?s')" by (rule len)
      show "result (calls ?s' ! i) = None" using same Cons.prems(4) by simp
      show "parse (calls ?s' ! i) msg = Inr v" using same Cons.prems(5) by simp
      show "match (calls ?s' ! i) v" using same Cons.prems(6) by simp
    qed
    then show ?thesis using r by (simp add: emit_Cons del: emit.simps)
  qed
qed

text \<open>After a failed connect no executor transmits, and every waiter is rejected.\<close>

lemma fold_executor_unconnected_sent:
  "\<not> connected s \<Longrightarrow> sent (fold executor ws s) = sent s"
  by (induction ws arbitrary: s) (simp_all add: executor_unfold)

lemma fold_executor_listeners: "listeners (fold executor ws s) = listeners s @ ws"
  by (induction ws arbitrary: s) (simp_all add: executor_unfold)

lemma fold_executor_rejects:
  assumes "i \<in> set ws" "i < length (calls s)" "\<not> connected s" "result (calls s ! i) = None"
  shows "result (calls (fold executor ws s) ! i) = Some (Rejected ERR_SOCKET_BAD_PORT)"
  using assms
proof (induction ws arbitrary: s)
  case Nil
  then show ?case by simp
next
  case (Cons j rest)
  show ?case
  proof (cases "j = i")
    case True
    have "result (calls (executor j s) ! i) = Some (Rejected ERR_SOCKET_BAD_PORT)"
      using True Cons.prems(2,3,4) by (simp add: executor_unfold)
    then show ?thesis by (simp add: fold_executor_result_kept)
  next
    case False
    have "result (calls (fold executor rest (executor j s)) ! i) =
        Some (Rejected ERR_SOCKET_BAD_PORT)"
      using Cons.prems False by (intro Cons.IH) (simp_all add: executor_other)
    then show ?thesis by simp
  qed
qed

text \<open>Invocations of \<open>send\<close> while the socket is not connected.\<close>

lemma send_while_connecting:
  assumes "\<not> connected s" "connecting s = Some ws"
  shows "\<not> connected (send d p m t s) \<and> connects (send d p m t s) = connects s \<and>
         connecting (send d p m t s) = Some (ws @ [length (calls s)]) \<and>
         length (calls (send d p m t s)) = Suc (length (calls s))"
  using assms by (simp add: send_def isConnected_connected reusePromise_def Let_def)

lemma send_first:
  assumes "\<not> connected s" "connecting s = None"
  shows "\<not> connected (send d p m t s) \<and> connects (send d p m t s) = connects s + 1 \<and>
         connecting (send d p m t s) = Some [length (calls s)] \<and>
         length (calls (send d p m t s)) = Suc (length (calls s))"
  using assms by (simp add: send_def isConnected_connected reusePromise_def connect_def Let_def)

lemma run_invokes_while_connecting:
  assumes "\<not> connected s" "connecting s = Some ws" "list_all is_Invoke evs"
  shows "fst (run evs s) = None \<and> connects (snd (run evs s)) = connects s \<and>
         connecting (snd (run evs s)) =
           Some (ws @ [length (calls s)..<length (calls s) + length evs])"
  using assms
proof (induction evs arbitrary: s ws)
  case Nil
  then show ?case by simp
next
  case (Cons ev evs)
  from Cons.prems(3) obtain d p m t where ev: "ev = Invoke d p m t"
    by (cases ev) simp_all
  let ?s' = "send d p m t s"
  note h = send_while_connecting [OF Cons.prems(1,2), of d p m t]
  have "fst (run evs ?s') = None \<and> connects (snd (run evs ?s')) = connects ?s' \<and>
        connecting (snd (run evs ?s')) =
          Some ((ws @ [length (calls s)]) @ [length (calls ?s')..<length (calls ?s') + length evs])"
    using Cons.prems(3) h by (intro Cons.IH) simp_all
  moreover have "[length (calls s)..<length (calls s) + length (ev # evs)] =
      length (calls s) # [Suc (length (calls s))..<Suc (length (calls s)) + length evs]"
    by (simp add: upt_conv_Cons del: upt_Suc)
  ultimately show ?case
    using h by (simp add: ev del: upt_Suc)
qed

text \<open>The definitions that evaluate a run on concrete inputs.\<close>

lemmas model_defs =
  example_client_def example_parse_def example_parse_lenient_def example_match_def Socket_def
  send_def isConnected_connected reusePromise_def connect_def connect_callback_def executor_unfold
  onMessage_def onTimeout_def onSent_def removeListener_def new_Error_def
  ERR_SOCKET_BAD_PORT_def zero_jsnumber_def less_jsnumber_def Let_def

lemma positive_truthy: "0 < t \<Longrightarrow> truthy t"
  by (cases t) (simp_all add: zero_jsnumber_def less_jsnumber_def)

lemma exec_started_kept:
  "i < length (calls s) \<Longrightarrow> started (calls s ! i) \<Longrightarrow> started (calls (exec evs s) ! i)"
proof (induction evs arbitrary: s)
  case Nil
  then show ?case by simp
next
  case (Cons ev evs)
  have "i < length (calls (snd (step ev s)))"
    using Cons.prems(1) step_length [of s ev] by simp
  moreover have "started (calls (snd (step ev s)) ! i)"
    using Cons.prems by (rule step_started_kept)
  ultimately show ?case by (simp add: Cons.IH)
qed

lemma falsy_iff: "(\<not> truthy t) = (t = 0 \<or> t = NaN)"
  by (cases t) (simp_all add: zero_jsnumber_def)

subsection \<open>A datagram on which parse throws\<close>

text \<open>
  Claim C1, as stated: a datagram on which \<open>parse\<close> throws is disregarded for the call,
  and a later datagram whose parsed value satisfies \<open>match\<close> still resolves the call.
  It fails. \<open>onMessage\<close> calls \<open>parse\<close> outside any \<open>try\<close>, so the exception leaves the
  listener and the emission of the datagram: handled in order, the empty datagram ends the
  run with the exception of \<open>parse\<close>, and the matching datagram behind it resolves nothing.
\<close>

theorem parse_exception_escapes_listener:
  "fst (onMessage 0 []
     (exec [Invoke [7] example_parse example_match (Some (Num 100)), ConnectDone None]
        example_client)) = Some (new_Error ''empty datagram'') \<and>
   fst (run [Invoke [7] example_parse example_match (Some (Num 100)), ConnectDone None,
             Message [], Message [1]] example_client) = Some (new_Error ''empty datagram'') \<and>
   result (calls (snd (run [Invoke [7] example_parse example_match (Some (Num 100)),
             ConnectDone None, Message [], Message [1]] example_client)) ! 0) = None"
  by (simp add: model_defs)

text \<open>
  Claim C1, amended. When \<open>parse\<close> throws on a datagram delivered to the listener of
  call \<open>i\<close>, the exception leaves \<open>onMessage\<close> uncaught and the state is exactly as
  before; the emission of that datagram ends with an exception, and after it the call is
  as it was (neither resolved nor rejected by it, its timer untouched) and its listener
  is still registered. If the host goes on and the call is still pending, a later
  datagram whose parsed value satisfies \<open>match\<close> resolves the call with that value,
  provided that no listener registered before the call's throws on that later datagram.
\<close>

theorem parse_exception_leaves_call_unchanged:
  assumes "reachable s" "i \<in> set (listeners s)" "parse (calls s ! i) msg = Inl e"
  shows "onMessage i msg s = (Some e, s) \<and>
         fst (step (Message msg) s) \<noteq> None \<and>
         calls (snd (step (Message msg) s)) ! i = calls s ! i \<and>
         i \<in> set (listeners (snd (step (Message msg) s))) \<and>
         (\<forall>msg' v. result (calls s ! i) = None \<and> parse (calls s ! i) msg' = Inr v \<and>
            match (calls s ! i) v \<and>
            (\<forall>j\<in>set (takeWhile (\<lambda>j. j \<noteq> i) (listeners (snd (step (Message msg) s)))).
               \<exists>w. parse (calls (snd (step (Message msg) s)) ! j) msg' = Inr w) \<longrightarrow>
            result (calls (snd (step (Message msg') (snd (step (Message msg) s)))) ! i) =
              Some (Resolved v))"
proof -
  let ?t = "snd (step (Message msg) s)"
  have inv: "client_inv s" using assms(1) by (rule reachable_inv)
  have len: "i < length (calls s)" using inv assms(2) by (rule inv_listener_bound)
  have a: "onMessage i msg s = (Some e, s)" using assms(3) by (rule onMessage_throws)
  have b: "fst (step (Message msg) s) \<noteq> None \<and> calls ?t ! i = calls s ! i \<and>
         i \<in> set (listeners ?t)"
    using emit_throws [OF assms(2,3,2)] by simp
  have c: "result (calls (snd (step (Message msg') ?t)) ! i) = Some (Resolved v)"
    if h: "result (calls s ! i) = None" "parse (calls s ! i) msg' = Inr v" "match (calls s ! i) v"
      "\<forall>j\<in>set (takeWhile (\<lambda>j. j \<noteq> i) (listeners ?t)). \<exists>w. parse (calls ?t ! j) msg' = Inr w"
    for msg' v
  proof -
    have "result (calls (snd (emit (listeners ?t) msg' ?t)) ! i) = Some (Resolved v)"
    proof (rule emit_resolves)
      show "i \<in> set (listeners ?t)" using b by simp
      show "\<forall>j\<in>set (takeWhile (\<lambda>j. j \<noteq> i) (listeners ?t)). \<exists>w. parse (calls ?t ! j) msg' = Inr w"
        by (rule h(4))
      show "i < length (calls ?t)" using len by simp
      show "result (calls ?t ! i) = None" using b h(1) by simp
      show "parse (calls ?t ! i) msg' = Inr v" using b h(2) by simp
      show "match (calls ?t ! i) v" using b h(3) by simp
    qed
    then show ?thesis by simp
  qed
  show ?thesis using a b c by blast
qed

theorem parse_exception_leaves_call_unchanged_witness:
  "0 \<in> set (listeners (exec [Invoke [7] example_parse example_match (Some (Num 100)),
        ConnectDone None] example_client)) \<and>
   parse (calls (exec [Invoke [7] example_parse example_match (Some (Num 100)),
        ConnectDone None] example_client) ! 0) [] = Inl (new_Error ''empty datagram'') \<and>
   fst (step (Message []) (exec [Invoke [7] example_parse example_match (Some (Num 100)),
        ConnectDone None] example_client)) = Some (new_Error ''empty datagram'') \<and>
   result (calls (snd (step (Message []) (exec [Invoke [7] example_parse example_match
        (Some (Num 100)), ConnectDone None] example_client))) ! 0) = None \<and>
   result (calls (snd (step (Message [1, 5]) (snd (step (Message [])
     (exec [Invoke [7] example_parse example_match (Some (Num 100)), ConnectDone None]
        example_client))))) ! 0) = Some (Resolved 1)"
  using parse_exception_leaves_call_unchanged [OF reachable_exec [OF reachable_new], of 0
      "[Invoke [7] example_parse example_match (Some (Num 100)), ConnectDone None]"
      "''192.168.1.10''" 54321 "[]" "new_Error ''empty datagram''"]
  by (simp add: model_defs)

subsection \<open>A connect operation that fails\<close>

text \<open>
  Claim C2. When the runtime reports a failed connect to the connect callback, no call
  awaiting the shared attempt hangs or transmits: the attempt is over, the socket is not
  connected, nothing is handed over for transmission, and every awaiting call is
  rejected. The callback itself ignores the error and resolves the shared promise; the
  rejection comes from \<open>socket.send\<close>, which throws on the unconnected socket inside the
  executor of each call's promise, so each call is rejected with that exception.
\<close>

theorem failed_connect_rejects_every_waiter:
  assumes "reachable s" "connecting s = Some ws"
  shows "step (ConnectDone (Some err)) s = (None, connect_callback (Some err) s) \<and>
         connecting (connect_callback (Some err) s) = None \<and>
         \<not> connected (connect_callback (Some err) s) \<and>
         sent (connect_callback (Some err) s) = sent s \<and>
         (\<forall>i\<in>set ws. result (calls (connect_callback (Some err) s) ! i) =
            Some (Rejected ERR_SOCKET_BAD_PORT))"
proof -
  let ?s0 = "s\<lparr>connected := False, connecting := None\<rparr>"
  have inv: "client_inv s" using assms(1) by (rule reachable_inv)
  then have w: "waiters_ok (calls s) ws" using assms(2) by (rule inv_waiters)
  have cb: "connect_callback (Some err) s = fold executor ws ?s0"
    using assms(2) by (simp add: connect_callback_def)
  have "result (calls (connect_callback (Some err) s) ! i) = Some (Rejected ERR_SOCKET_BAD_PORT)"
    if i: "i \<in> set ws" for i
  proof -
    from w i have len: "i < length (calls s)" and ns: "\<not> started (calls s ! i)"
      by (auto simp: waiters_ok_def)
    from inv len have "call_ok (listeners s) (transmitted s i) i (calls s ! i)"
      by (rule inv_call)
    with ns have "result (calls s ! i) = None" by (simp add: call_ok_def)
    then have "result (calls (fold executor ws ?s0) ! i) = Some (Rejected ERR_SOCKET_BAD_PORT)"
      using i len by (intro fold_executor_rejects) simp_all
    then show ?thesis by (simp add: cb)
  qed
  then show ?thesis
    by (simp add: cb fold_executor_unconnected_sent)
qed

theorem failed_connect_rejects_every_waiter_witness:
  "connecting (exec [Invoke [7] example_parse example_match (Some (Num 100)),
        Invoke [8] example_parse example_match None] example_client) = Some [0, 1] \<and>
   result (calls (connect_callback (Some (new_Error ''connect ENETUNREACH''))
     (exec [Invoke [7] example_parse example_match (Some (Num 100)),
        Invoke [8] example_parse example_match None] example_client)) ! 0) =
     Some (Rejected ERR_SOCKET_BAD_PORT) \<and>
   result (calls (connect_callback (Some (new_Error ''connect ENETUNREACH''))
     (exec [Invoke [7] example_parse example_match (Some (Num 100)),
        Invoke [8] example_parse example_match None] example_client)) ! 1) =
     Some (Rejected ERR_SOCKET_BAD_PORT) \<and>
   sent (connect_callback (Some (new_Error ''connect ENETUNREACH''))
     (exec [Invoke [7] example_parse example_match (Some (Num 100)),
        Invoke [8] example_parse example_match None] example_client)) = [] \<and>
   connecting (connect_callback (Some (new_Error ''connect ENETUNREACH''))
     (exec [Invoke [7] example_parse example_match (Some (Num 100)),
        Invoke [8] example_parse example_match None] example_client)) = None"
  using failed_connect_rejects_every_waiter [OF reachable_exec [OF reachable_new], of
      "[Invoke [7] example_parse example_match (Some (Num 100)),
        Invoke [8] example_parse example_match None]"
      "''192.168.1.10''" 54321 "[0, 1]" "new_Error ''connect ENETUNREACH''"]
  by (simp add: model_defs)

subsection \<open>One connect operation for concurrent calls\<close>

text \<open>
  Claim C3. When \<open>send\<close> is invoked any number of times (at least once) while the
  socket is not connected and no connect attempt is in flight, \<open>socket.connect\<close> is
  invoked exactly once: the counter grows by one, and every one of the calls, in the
  order of invocation, awaits the same in-flight attempt. The sharing is that of
  \<open>reusePromise\<close> as the spec describes it.
\<close>

theorem concurrent_sends_connect_once:
  assumes "\<not> connected s" "connecting s = None" "evs \<noteq> []" "list_all is_Invoke evs"
  shows "fst (run evs s) = None \<and> connects (snd (run evs s)) = connects s + 1 \<and>
         connecting (snd (run evs s)) =
           Some [length (calls s)..<length (calls s) + length evs]"
proof -
  from assms(3,4) obtain d p m t rest where evs: "evs = Invoke d p m t # rest"
    and rest: "list_all is_Invoke rest"
    by (cases evs; cases "hd evs") auto
  let ?s' = "send d p m t s"
  note h = send_first [OF assms(1,2), of d p m t]
  have "fst (run rest ?s') = None \<and> connects (snd (run rest ?s')) = connects ?s' \<and>
        connecting (snd (run rest ?s')) =
          Some ([length (calls s)] @ [length (calls ?s')..<length (calls ?s') + length rest])"
    using h rest by (intro run_invokes_while_connecting) simp_all
  moreover have "[length (calls s)..<length (calls s) + length evs] =
      length (calls s) # [Suc (length (calls s))..<Suc (length (calls s)) + length rest]"
    by (simp add: evs upt_conv_Cons del: upt_Suc)
  ultimately show ?thesis
    using h by (simp add: evs del: upt_Suc)
qed

theorem concurrent_sends_connect_once_witness:
  "\<not> connected example_client \<and> connecting example_client = None \<and>
   list_all is_Invoke [Invoke [1] example_parse example_match None,
                       Invoke [2] example_parse example_match (Some (Num 0)),
                       Invoke [3] example_parse example_match (Some (Num 250))] \<and>
   connects (snd (run [Invoke [1] example_parse example_match None,
                       Invoke [2] example_parse example_match (Some (Num 0)),
                       Invoke [3] example_parse example_match (Some (Num 250))]
                   example_client)) = 1 \<and>
   connecting (snd (run [Invoke [1] example_parse example_match None,
                       Invoke [2] example_parse example_match (Some (Num 0)),
                       Invoke [3] example_parse example_match (Some (Num 250))]
                   example_client)) = Some [0, 1, 2]"
  using concurrent_sends_connect_once [of example_client
      "[Invoke [1] example_parse example_match None,
        Invoke [2] example_parse example_match (Some (Num 0)),
        Invoke [3] example_parse example_match (Some (Num 250))]"]
  by (simp add: example_client_def Socket_def upt_rec)

subsection \<open>One settlement per call\<close>

text \<open>
  Claim C4, as stated: every call settles exactly once, never zero times. The last part
  fails. With \<open>timeout = 0\<close> the guard \<open>if (timeout)\<close> starts no timer: after a
  successful transmission and a datagram that does not match, the call is pending and
  nothing but a matching datagram is left to settle it.
\<close>

theorem call_with_zero_timeout_stays_pending:
  "fst (run [Invoke [7] example_parse example_match (Some (Num 0)), ConnectDone None,
             SendDone 0 None, Message [2]] example_client) = None \<and>
   started (calls (snd (run [Invoke [7] example_parse example_match (Some (Num 0)),
             ConnectDone None, SendDone 0 None, Message [2]] example_client)) ! 0) \<and>
   result (calls (snd (run [Invoke [7] example_parse example_match (Some (Num 0)),
             ConnectDone None, SendDone 0 None, Message [2]] example_client)) ! 0) = None \<and>
   timer (calls (snd (run [Invoke [7] example_parse example_match (Some (Num 0)),
             ConnectDone None, SendDone 0 None, Message [2]] example_client)) ! 0) = NoTimer"
  by (simp add: model_defs)

text \<open>
  Claim C4, amended. The result of a call, once there is one, never changes. A call that
  has got past the connect step with its transmission under way (started and pending) is
  settled by one of: a datagram whose parsed value satisfies \<open>match\<close> (it resolves with
  that value), its timer (it rejects with the timeout error), or an error reported to its
  \<open>socket.send\<close> callback (it rejects with that error); when it is settled, its listener
  is removed, its timer is not armed, and nothing changes the call afterwards. Such a call
  need not settle: with a truthy timeout its timer is armed, so it settles when the timer
  fires at the latest; with a falsy timeout it stays pending for as long as no matching
  datagram and no transport error arrives.
\<close>

theorem settles_at_most_once:
  assumes "reachable s" "i < length (calls s)"
  shows "(\<forall>evs x. result (calls s ! i) = Some x \<longrightarrow> result (calls (exec evs s) ! i) = Some x) \<and>
         (\<forall>evs x. started (calls s ! i) \<and> result (calls s ! i) = None \<and>
              result (calls (exec evs s) ! i) = Some x \<longrightarrow>
            ((\<exists>msg v. Message msg \<in> set evs \<and> parse (calls s ! i) msg = Inr v \<and>
               match (calls s ! i) v \<and> x = Resolved v) \<or>
             (TimerFire i \<in> set evs \<and> truthy (timeout (calls s ! i)) \<and>
               x = Rejected (new_Error ''Socket timeout'')) \<or>
             (\<exists>e. SendDone i (Some e) \<in> set evs \<and> x = Rejected e)) \<and>
            i \<notin> set (listeners (exec evs s)) \<and>
            \<not> is_armed (timer (calls (exec evs s) ! i)) \<and>
            (\<forall>evs'. calls (exec evs' (exec evs s)) ! i = calls (exec evs s) ! i)) \<and>
         (started (calls s ! i) \<and> result (calls s ! i) = None \<and> truthy (timeout (calls s ! i)) \<longrightarrow>
            is_armed (timer (calls s ! i))) \<and>
         (\<forall>evs. started (calls s ! i) \<and> result (calls s ! i) = None \<and>
            \<not> truthy (timeout (calls s ! i)) \<and>
            (\<forall>msg v. Message msg \<in> set evs \<and> parse (calls s ! i) msg = Inr v \<longrightarrow>
               \<not> match (calls s ! i) v) \<and>
            (\<forall>e. SendDone i (Some e) \<notin> set evs) \<longrightarrow>
            result (calls (exec evs s) ! i) = None)"
proof -
  have inv: "client_inv s" using assms(1) by (rule reachable_inv)
  have a: "result (calls (exec evs s) ! i) = Some x" if "result (calls s ! i) = Some x" for evs x
    using assms(2) that by (rule exec_result_kept)
  have causes: "(\<exists>msg v. Message msg \<in> set evs \<and> parse (calls s ! i) msg = Inr v \<and>
               match (calls s ! i) v \<and> x = Resolved v) \<or>
             (TimerFire i \<in> set evs \<and> truthy (timeout (calls s ! i)) \<and>
               x = Rejected (new_Error ''Socket timeout'')) \<or>
             (\<exists>e. SendDone i (Some e) \<in> set evs \<and> x = Rejected e)"
    if h: "started (calls s ! i)" "result (calls s ! i) = None"
      "result (calls (exec evs s) ! i) = Some x" for evs x
    using exec_settles [OF inv assms(2) h(2,3)] h(1) by blast
  have clean: "i \<notin> set (listeners (exec evs s)) \<and> \<not> is_armed (timer (calls (exec evs s) ! i)) \<and>
      (\<forall>evs'. calls (exec evs' (exec evs s)) ! i = calls (exec evs s) ! i)"
    if h: "started (calls s ! i)" "result (calls s ! i) = None"
      "result (calls (exec evs s) ! i) = Some x" for evs x
  proof -
    let ?t = "exec evs s"
    have inv': "client_inv ?t" using inv by (rule inv_exec)
    have len': "i < length (calls ?t)" using assms(2) exec_length [of s evs] by simp
    have st': "started (calls ?t ! i)" using assms(2) h(1) by (rule exec_started_kept)
    have "transmitted s i" using inv assms(2) h(1,2) by (rule pending_transmitted)
    then have "transmitted ?t i" by (rule exec_transmitted)
    with inv' have c: "i \<notin> set (listeners ?t) \<and> \<not> is_armed (timer (calls ?t ! i))"
      using h(3) by (rule transmitted_settled_clean)
    have "calls (exec evs' ?t) ! i = calls ?t ! i" for evs'
      using exec_call_frozen [OF inv' len' st' h(3), of evs'] c by simp
    then show ?thesis using c by simp
  qed
  have d: "is_armed (timer (calls s ! i))"
    if h: "started (calls s ! i)" "result (calls s ! i) = None" "truthy (timeout (calls s ! i))"
  proof -
    have "transmitted s i" using inv assms(2) h(1,2) by (rule pending_transmitted)
    with inv show ?thesis
      using transmitted_pending_listening [of s i] h(2,3) by simp
  qed
  have e: "result (calls (exec evs s) ! i) = None"
    if h: "started (calls s ! i)" "result (calls s ! i) = None"
      "\<not> truthy (timeout (calls s ! i))"
      "\<forall>msg v. Message msg \<in> set evs \<and> parse (calls s ! i) msg = Inr v \<longrightarrow>
               \<not> match (calls s ! i) v"
      "\<forall>e. SendDone i (Some e) \<notin> set evs" for evs
  proof (cases "result (calls (exec evs s) ! i)")
    case None
    then show ?thesis .
  next
    case (Some x)
    from causes [OF h(1,2) Some] h(3,4,5) show ?thesis by blast
  qed
  have A: "\<forall>evs x. result (calls s ! i) = Some x \<longrightarrow> result (calls (exec evs s) ! i) = Some x"
    using a by blast
  have B: "\<forall>evs x. started (calls s ! i) \<and> result (calls s ! i) = None \<and>
              result (calls (exec evs s) ! i) = Some x \<longrightarrow>
            ((\<exists>msg v. Message msg \<in> set evs \<and> parse (calls s ! i) msg = Inr v \<and>
               match (calls s ! i) v \<and> x = Resolved v) \<or>
             (TimerFire i \<in> set evs \<and> truthy (timeout (calls s ! i)) \<and>
               x = Rejected (new_Error ''Socket timeout'')) \<or>
             (\<exists>e. SendDone i (Some e) \<in> set evs \<and> x = Rejected e)) \<and>
            i \<notin> set (listeners (exec evs s)) \<and>
            \<not> is_armed (timer (calls (exec evs s) ! i)) \<and>
            (\<forall>evs'. calls (exec evs' (exec evs s)) ! i = calls (exec evs s) ! i)"
  proof (intro allI impI)
    fix evs x
    assume h: "started (calls s ! i) \<and> result (calls s ! i) = None \<and>
              result (calls (exec evs s) ! i) = Some x"
    then show "((\<exists>msg v. Message msg \<in> set evs \<and> parse (calls s ! i) msg = Inr v \<and>
               match (calls s ! i) v \<and> x = Resolved v) \<or>
             (TimerFire i \<in> set evs \<and> truthy (timeout (calls s ! i)) \<and>
               x = Rejected (new_Error ''Socket timeout'')) \<or>
             (\<exists>e. SendDone i (Some e) \<in> set evs \<and> x = Rejected e)) \<and>
            i \<notin> set (listeners (exec evs s)) \<and>
            \<not> is_armed (timer (calls (exec evs s) ! i)) \<and>
            (\<forall>evs'. calls (exec evs' (exec evs s)) ! i = calls (exec evs s) ! i)"
      using causes [of evs x] clean [of evs x] by simp
  qed
  have C: "started (calls s ! i) \<and> result (calls s ! i) = None \<and>
      truthy (timeout (calls s ! i)) \<longrightarrow> is_armed (timer (calls s ! i))"
    using d by simp
  have D: "\<forall>evs. started (calls s ! i) \<and> result (calls s ! i) = None \<and>
            \<not> truthy (timeout (calls s ! i)) \<and>
            (\<forall>msg v. Message msg \<in> set evs \<and> parse (calls s ! i) msg = Inr v \<longrightarrow>
               \<not> match (calls s ! i) v) \<and>
            (\<forall>e. SendDone i (Some e) \<notin> set evs) \<longrightarrow>
            result (calls (exec evs s) ! i) = None"
  proof (intro allI impI)
    fix evs :: "'a event list"
    assume "started (calls s ! i) \<and> result (calls s ! i) = None \<and>
            \<not> truthy (timeout (calls s ! i)) \<and>
            (\<forall>msg v. Message msg \<in> set evs \<and> parse (calls s ! i) msg = Inr v \<longrightarrow>
               \<not> match (calls s ! i) v) \<and>
            (\<forall>e. SendDone i (Some e) \<notin> set evs)"
    then show "result (calls (exec evs s) ! i) = None" using e [of evs] by simp
  qed
  show ?thesis by (rule conjI [OF A conjI [OF B conjI [OF C D]]])
qed

theorem settles_at_most_once_witness:
  "started (calls (exec [Invoke [7] example_parse example_match (Some (Num 100)),
        ConnectDone None] example_client) ! 0) \<and>
   result (calls (exec [Invoke [7] example_parse example_match (Some (Num 100)),
        ConnectDone None] example_client) ! 0) = None \<and>
   timer (calls (exec [Invoke [7] example_parse example_match (Some (Num 100)),
        ConnectDone None] example_client) ! 0) = Armed (Num 100) \<and>
   result (calls (exec [Message [1]] (exec [Invoke [7] example_parse example_match
        (Some (Num 100)), ConnectDone None] example_client)) ! 0) = Some (Resolved 1) \<and>
   listeners (exec [Message [1]] (exec [Invoke [7] example_parse example_match
        (Some (Num 100)), ConnectDone None] example_client)) = [] \<and>
   timer (calls (exec [Message [1]] (exec [Invoke [7] example_parse example_match
        (Some (Num 100)), ConnectDone None] example_client)) ! 0) = Cleared \<and>
   result (calls (exec [TimerFire 0, SendDone 0 (Some (new_Error ''send EPERM'')), Message [1]]
     (exec [Message [1]] (exec [Invoke [7] example_parse example_match (Some (Num 100)),
        ConnectDone None] example_client))) ! 0) = Some (Resolved 1)"
  using settles_at_most_once [OF reachable_exec [OF reachable_new], of 0
      "[Invoke [7] example_parse example_match (Some (Num 100)), ConnectDone None]"
      "''192.168.1.10''" 54321]
  by (simp add: model_defs)

text \<open>
  The amended claim says nothing of a call that resumes after a failed connect. Such a
  call is rejected by the exception of \<open>socket.send\<close>, after its timer was started and
  its listener registered, and both stay behind.
\<close>

lemma failed_connect_leaves_listener_and_timer:
  "result (calls (exec [Invoke [7] example_parse example_match (Some (Num 100)),
        ConnectDone (Some (new_Error ''connect ENETUNREACH''))] example_client) ! 0) =
     Some (Rejected ERR_SOCKET_BAD_PORT) \<and>
   listeners (exec [Invoke [7] example_parse example_match (Some (Num 100)),
        ConnectDone (Some (new_Error ''connect ENETUNREACH''))] example_client) = [0] \<and>
   timer (calls (exec [Invoke [7] example_parse example_match (Some (Num 100)),
        ConnectDone (Some (new_Error ''connect ENETUNREACH''))] example_client) ! 0) =
     Armed (Num 100)"
  by (simp add: model_defs)

subsection \<open>A matching datagram\<close>

text \<open>
  Claim C5, as stated: whenever the parsed value of an inbound datagram satisfies the
  \<open>match\<close> of a call, the call resolves with that value. It fails. The listeners are
  called in registration order and an exception ends the emission: here the datagram
  satisfies \<open>match\<close> of the second call, but \<open>parse\<close> of the first call throws on it, so
  the second call's listener is never called; the call stays pending, its timer armed and
  its listener registered.
\<close>

theorem matching_datagram_lost_after_exception:
  "parse (calls (exec [Invoke [7] example_parse example_match (Some (Num 100)),
        Invoke [8] example_parse_lenient example_match (Some (Num 100)), ConnectDone None]
        example_client) ! 1) [] = Inr 1 \<and>
   match (calls (exec [Invoke [7] example_parse example_match (Some (Num 100)),
        Invoke [8] example_parse_lenient example_match (Some (Num 100)), ConnectDone None]
        example_client) ! 1) 1 \<and>
   fst (step (Message []) (exec [Invoke [7] example_parse example_match (Some (Num 100)),
        Invoke [8] example_parse_lenient example_match (Some (Num 100)), ConnectDone None]
        example_client)) = Some (new_Error ''empty datagram'') \<and>
   result (calls (snd (step (Message []) (exec [Invoke [7] example_parse example_match
        (Some (Num 100)), Invoke [8] example_parse_lenient example_match (Some (Num 100)),
        ConnectDone None] example_client))) ! 1) = None \<and>
   timer (calls (snd (step (Message []) (exec [Invoke [7] example_parse example_match
        (Some (Num 100)), Invoke [8] example_parse_lenient example_match (Some (Num 100)),
        ConnectDone None] example_client))) ! 1) = Armed (Num 100) \<and>
   listeners (snd (step (Message []) (exec [Invoke [7] example_parse example_match
        (Some (Num 100)), Invoke [8] example_parse_lenient example_match (Some (Num 100)),
        ConnectDone None] example_client))) = [0, 1]"
  by (simp add: model_defs)

text \<open>
  Claim C5, amended. When the listener of a call that is still pending is given a
  datagram whose parsed value \<open>v\<close> satisfies \<open>match\<close>, nothing is thrown, the call
  resolves with exactly \<open>v\<close>, its timer is no longer armed and its listener is removed;
  whatever events follow, the call stays as it is and its listener is never registered
  again. An inbound datagram is given to the call's listener, with all of this as the
  result, provided that no listener registered before the call's throws on it.
\<close>

theorem matching_datagram_resolves:
  assumes "reachable s" "i \<in> set (listeners s)" "result (calls s ! i) = None"
    "parse (calls s ! i) msg = Inr v" "match (calls s ! i) v"
  shows "fst (onMessage i msg s) = None \<and>
         result (calls (snd (onMessage i msg s)) ! i) = Some (Resolved v) \<and>
         \<not> is_armed (timer (calls (snd (onMessage i msg s)) ! i)) \<and>
         i \<notin> set (listeners (snd (onMessage i msg s))) \<and>
         (\<forall>evs. calls (exec evs (snd (onMessage i msg s))) ! i =
                  calls (snd (onMessage i msg s)) ! i \<and>
                i \<notin> set (listeners (exec evs (snd (onMessage i msg s))))) \<and>
         ((\<forall>j\<in>set (takeWhile (\<lambda>j. j \<noteq> i) (listeners s)).
              \<exists>w. parse (calls s ! j) msg = Inr w) \<longrightarrow>
            result (calls (snd (step (Message msg) s)) ! i) = Some (Resolved v) \<and>
            \<not> is_armed (timer (calls (snd (step (Message msg) s)) ! i)) \<and>
            i \<notin> set (listeners (snd (step (Message msg) s))) \<and>
            (\<forall>evs. calls (exec evs (snd (step (Message msg) s))) ! i =
                     calls (snd (step (Message msg) s)) ! i \<and>
                   i \<notin> set (listeners (exec evs (snd (step (Message msg) s))))))"
proof -
  let ?s' = "snd (onMessage i msg s)"
  let ?t = "snd (step (Message msg) s)"
  have inv: "client_inv s" using assms(1) by (rule reachable_inv)
  have ls: "i < length (calls s) \<and> started (calls s ! i)"
    using inv assms(2) by (rule listening_started)
  then have len: "i < length (calls s)" and st: "started (calls s ! i)" by simp_all
  have dl: "distinct (listeners s)" using inv by (rule inv_distinct)
  have a: "fst (onMessage i msg s) = None"
    using assms(4) by (rule onMessage_returns)
  have b: "result (calls ?s' ! i) = Some (Resolved v)"
    using len assms(3,4,5) by (rule onMessage_resolves)
  have c: "\<not> is_armed (timer (calls ?s' ! i))"
    using assms(4,5) len by (simp add: onMessage_def Let_def)
  have d: "i \<notin> set (listeners ?s')"
    using assms(4,5) dl by (simp add: onMessage_def Let_def set_removeListener)
  have inv': "client_inv ?s'" using inv assms(2) by (rule inv_onMessage)
  have len': "i < length (calls ?s')" using len by simp
  have st': "started (calls ?s' ! i)"
    using assms(4,5) len st by (simp add: onMessage_def Let_def)
  have e: "calls (exec evs ?s') ! i = calls ?s' ! i \<and> i \<notin> set (listeners (exec evs ?s'))"
    for evs
    using inv' len' st' b c d by (rule exec_call_frozen)
  have f: "result (calls ?t ! i) = Some (Resolved v) \<and>
            \<not> is_armed (timer (calls ?t ! i)) \<and> i \<notin> set (listeners ?t) \<and>
            (\<forall>evs. calls (exec evs ?t) ! i = calls ?t ! i \<and> i \<notin> set (listeners (exec evs ?t)))"
    if all: "\<forall>j\<in>set (takeWhile (\<lambda>j. j \<noteq> i) (listeners s)). \<exists>w. parse (calls s ! j) msg = Inr w"
  proof -
    have r: "result (calls ?t ! i) = Some (Resolved v)"
      using emit_resolves [OF assms(2) all len assms(3,4,5)] by simp
    have invt: "client_inv ?t" using inv by (rule inv_step)
    have lent: "i < length (calls ?t)" using len by simp
    have stt: "started (calls ?t ! i)" using len st by (rule step_started_kept)
    have "transmitted s i" using inv len st assms(3) by (rule pending_transmitted)
    then have "transmitted ?t i" using step_sent [of s "Message msg"]
      by (auto simp: transmitted_def)
    with invt have cl: "i \<notin> set (listeners ?t) \<and> \<not> is_armed (timer (calls ?t ! i))"
      using r by (rule transmitted_settled_clean)
    have "calls (exec evs ?t) ! i = calls ?t ! i \<and> i \<notin> set (listeners (exec evs ?t))" for evs
      using exec_call_frozen [OF invt lent stt r, of evs] cl by simp
    then show ?thesis using r cl by simp
  qed
  show ?thesis using a b c d e f by blast
qed

theorem matching_datagram_resolves_witness:
  "0 \<in> set (listeners (exec [Invoke [7] example_parse example_match (Some (Num 100)),
        ConnectDone None] example_client)) \<and>
   result (calls (exec [Invoke [7] example_parse example_match (Some (Num 100)),
        ConnectDone None] example_client) ! 0) = None \<and>
   result (calls (snd (onMessage 0 [1, 9]
     (exec [Invoke [7] example_parse example_match (Some (Num 100)), ConnectDone None]
        example_client))) ! 0) = Some (Resolved 1) \<and>
   listeners (snd (onMessage 0 [1, 9]
     (exec [Invoke [7] example_parse example_match (Some (Num 100)), ConnectDone None]
        example_client))) = [] \<and>
   timer (calls (snd (onMessage 0 [1, 9]
     (exec [Invoke [7] example_parse example_match (Some (Num 100)), ConnectDone None]
        example_client))) ! 0) = Cleared \<and>
   result (calls (snd (step (Message [1, 9])
     (exec [Invoke [7] example_parse example_match (Some (Num 100)), ConnectDone None]
        example_client))) ! 0) = Some (Resolved 1)"
  using matching_datagram_resolves [OF reachable_exec [OF reachable_new], of 0
      "[Invoke [7] example_parse example_match (Some (Num 100)), ConnectDone None]"
      "''192.168.1.10''" 54321 "[1, 9]" 1]
  by (simp add: model_defs)

subsection \<open>The timer\<close>

text \<open>
  Claim C6. A started call with \<open>timeout > 0\<close> that nothing has settled yet (no
  matching datagram has arrived) has its timer armed; when the timer fires, the call
  rejects with \<open>new Error("Socket timeout")\<close> and its listener is removed.
\<close>

theorem timer_fires_rejects_with_timeout:
  assumes "reachable s" "i < length (calls s)" "started (calls s ! i)"
    "0 < timeout (calls s ! i)" "result (calls s ! i) = None"
  shows "is_armed (timer (calls s ! i)) \<and>
         step (TimerFire i) s = (None, onTimeout i s) \<and>
         result (calls (onTimeout i s) ! i) = Some (Rejected (new_Error ''Socket timeout'')) \<and>
         i \<notin> set (listeners (onTimeout i s))"
proof -
  have inv: "client_inv s" using assms(1) by (rule reachable_inv)
  then have dl: "distinct (listeners s)" by (rule inv_distinct)
  have "transmitted s i" using inv assms(2,3,5) by (rule pending_transmitted)
  with inv have armed: "is_armed (timer (calls s ! i))"
    using transmitted_pending_listening [of s i] assms(4,5) by (simp add: positive_truthy)
  moreover have "step (TimerFire i) s = (None, onTimeout i s)"
    using armed assms(2) by simp
  moreover have "result (calls (onTimeout i s) ! i) = Some (Rejected (new_Error ''Socket timeout''))"
    using assms(2,5) by (simp add: onTimeout_def Let_def)
  moreover have "i \<notin> set (listeners (onTimeout i s))"
    using dl by (simp add: onTimeout_def Let_def set_removeListener)
  ultimately show ?thesis by blast
qed

theorem timer_fires_rejects_with_timeout_witness:
  "started (calls (exec [Invoke [7] example_parse example_match (Some (Num 100)),
        ConnectDone None, Message [2], SendDone 0 None] example_client) ! 0) \<and>
   0 < timeout (calls (exec [Invoke [7] example_parse example_match (Some (Num 100)),
        ConnectDone None, Message [2], SendDone 0 None] example_client) ! 0) \<and>
   result (calls (exec [Invoke [7] example_parse example_match (Some (Num 100)),
        ConnectDone None, Message [2], SendDone 0 None] example_client) ! 0) = None \<and>
   timer (calls (exec [Invoke [7] example_parse example_match (Some (Num 100)),
        ConnectDone None, Message [2], SendDone 0 None] example_client) ! 0) =
     Armed (Num 100) \<and>
   result (calls (onTimeout 0 (exec [Invoke [7] example_parse example_match (Some (Num 100)),
        ConnectDone None, Message [2], SendDone 0 None] example_client)) ! 0) =
     Some (Rejected \<lparr>message = ''Socket timeout'', code = None\<rparr>) \<and>
   listeners (onTimeout 0 (exec [Invoke [7] example_parse example_match (Some (Num 100)),
        ConnectDone None, Message [2], SendDone 0 None] example_client)) = []"
  using timer_fires_rejects_with_timeout [OF reachable_exec [OF reachable_new], of 0
      "[Invoke [7] example_parse example_match (Some (Num 100)), ConnectDone None,
        Message [2], SendDone 0 None]" "''192.168.1.10''" 54321]
  by (simp add: model_defs)

text \<open>
  Claim C7. A call whose \<open>timeout\<close> is falsy, that is \<open>0\<close> or \<open>NaN\<close>, never has a
  timer: its \<open>timer\<close> variable stays \<open>null\<close> in every later state and a timer event
  does nothing. If it settles, then through a datagram whose parsed value satisfies
  \<open>match\<close>, or through an error of the transmission: one that the runtime reported to
  its \<open>socket.send\<close> callback or, for a call that awaited a connect step that failed,
  the one that \<open>socket.send\<close> threw. It is never the timeout error of the timer. When
  the argument is omitted the timeout is 5000 ms; otherwise it is the argument.
\<close>

theorem falsy_timeout_never_times_out:
  assumes "reachable s" "i < length (calls s)" "\<not> truthy (timeout (calls s ! i))"
  shows "(timeout (calls s ! i) = 0 \<or> timeout (calls s ! i) = NaN) \<and>
         timer (calls s ! i) = NoTimer \<and>
         step (TimerFire i) s = (None, s) \<and>
         (\<forall>evs. timer (calls (exec evs s) ! i) = NoTimer) \<and>
         (\<forall>evs x. result (calls s ! i) = None \<and> result (calls (exec evs s) ! i) = Some x \<longrightarrow>
            (\<exists>msg v. Message msg \<in> set evs \<and> parse (calls s ! i) msg = Inr v \<and>
               match (calls s ! i) v \<and> x = Resolved v) \<or>
            (\<exists>e. SendDone i (Some e) \<in> set evs \<and> x = Rejected e) \<or>
            (\<not> started (calls s ! i) \<and> (\<exists>err. ConnectDone (Some err) \<in> set evs) \<and>
               x = Rejected ERR_SOCKET_BAD_PORT)) \<and>
         timeout (calls (send d p m None s0) ! length (calls s0)) = Num 5000 \<and>
         timeout (calls (send d p m (Some ms) s0) ! length (calls s0)) = ms"
proof -
  have inv: "client_inv s" using assms(1) by (rule reachable_inv)
  have z: "timeout (calls s ! i) = 0 \<or> timeout (calls s ! i) = NaN"
    using assms(3) by (simp add: falsy_iff)
  have a: "timer (calls s ! i) = NoTimer" using inv assms(2,3) by (rule falsy_no_timer)
  then have b: "step (TimerFire i) s = (None, s)" by simp
  have c: "timer (calls (exec evs s) ! i) = NoTimer" for evs
  proof (rule falsy_no_timer)
    show "client_inv (exec evs s)" using inv by (rule inv_exec)
    show "i < length (calls (exec evs s))" using assms(2) exec_length [of s evs] by simp
    show "\<not> truthy (timeout (calls (exec evs s) ! i))"
      using exec_args [OF assms(2), of evs] assms(3) by (simp add: same_args_def)
  qed
  have C: "\<forall>evs. timer (calls (exec evs s) ! i) = NoTimer" using c by blast
  have D: "\<forall>evs x. result (calls s ! i) = None \<and> result (calls (exec evs s) ! i) = Some x \<longrightarrow>
            (\<exists>msg v. Message msg \<in> set evs \<and> parse (calls s ! i) msg = Inr v \<and>
               match (calls s ! i) v \<and> x = Resolved v) \<or>
            (\<exists>e. SendDone i (Some e) \<in> set evs \<and> x = Rejected e) \<or>
            (\<not> started (calls s ! i) \<and> (\<exists>err. ConnectDone (Some err) \<in> set evs) \<and>
               x = Rejected ERR_SOCKET_BAD_PORT)"
  proof (intro allI impI)
    fix evs x
    assume h: "result (calls s ! i) = None \<and> result (calls (exec evs s) ! i) = Some x"
    then have "result (calls s ! i) = None" "result (calls (exec evs s) ! i) = Some x"
      by simp_all
    from exec_settles [OF inv assms(2) this] assms(3)
    show "(\<exists>msg v. Message msg \<in> set evs \<and> parse (calls s ! i) msg = Inr v \<and>
               match (calls s ! i) v \<and> x = Resolved v) \<or>
            (\<exists>e. SendDone i (Some e) \<in> set evs \<and> x = Rejected e) \<or>
            (\<not> started (calls s ! i) \<and> (\<exists>err. ConnectDone (Some err) \<in> set evs) \<and>
               x = Rejected ERR_SOCKET_BAD_PORT)"
      by blast
  qed
  have e: "timeout (calls (send d p m None s0) ! length (calls s0)) = Num 5000"
    by (simp add: send_def Let_def executor_unfold reusePromise_def connect_def nth_append
        split: option.splits)
  have f: "timeout (calls (send d p m (Some ms) s0) ! length (calls s0)) = ms"
    by (simp add: send_def Let_def executor_unfold reusePromise_def connect_def nth_append
        split: option.splits)
  show ?thesis
    by (rule conjI [OF z conjI [OF a conjI [OF b conjI [OF C conjI [OF D conjI [OF e f]]]]]])
qed

theorem falsy_timeout_never_times_out_witness:
  "\<not> truthy (timeout (calls (exec [Invoke [7] example_parse example_match (Some (Num 0)),
        Invoke [8] example_parse example_match (Some NaN), ConnectDone None]
        example_client) ! 1)) \<and>
   timer (calls (exec [Invoke [7] example_parse example_match (Some (Num 0)),
        Invoke [8] example_parse example_match (Some NaN), ConnectDone None]
        example_client) ! 0) = NoTimer \<and>
   timer (calls (exec [Invoke [7] example_parse example_match (Some (Num 0)),
        Invoke [8] example_parse example_match (Some NaN), ConnectDone None]
        example_client) ! 1) = NoTimer \<and>
   step (TimerFire 1) (exec [Invoke [7] example_parse example_match (Some (Num 0)),
        Invoke [8] example_parse example_match (Some NaN), ConnectDone None] example_client) =
     (None, exec [Invoke [7] example_parse example_match (Some (Num 0)),
        Invoke [8] example_parse example_match (Some NaN), ConnectDone None] example_client) \<and>
   timeout (calls (send [7] example_parse example_match None example_client) ! 0) = Num 5000"
  using falsy_timeout_never_times_out [OF reachable_exec [OF reachable_new], of 1
      "[Invoke [7] example_parse example_match (Some (Num 0)),
        Invoke [8] example_parse example_match (Some NaN), ConnectDone None]"
      "''192.168.1.10''" 54321 "[7]" example_parse example_match example_client "Num 0"]
    falsy_timeout_never_times_out [OF reachable_exec [OF reachable_new], of 0
      "[Invoke [7] example_parse example_match (Some (Num 0)),
        Invoke [8] example_parse example_match (Some NaN), ConnectDone None]"
      "''192.168.1.10''" 54321 "[7]" example_parse example_match example_client "Num 0"]
  by (simp add: model_defs)

subsection \<open>The completion callback of a transmission\<close>

text \<open>
  Claim C8. When the runtime reports an error \<open>e\<close> to the \<open>socket.send\<close> callback of
  call \<open>i\<close>, the call's timer is no longer armed afterwards, its listener is removed,
  and the call, pending until then, rejects with exactly \<open>e\<close>. (A call that the timer
  or a datagram has settled before keeps its result: the first settlement wins.)
\<close>

theorem transport_error_rejects:
  assumes "reachable s" "i < length (calls s)" "started (calls s ! i)"
  shows "step (SendDone i (Some e)) s = (None, onSent i (Some e) s) \<and>
         \<not> is_armed (timer (calls (onSent i (Some e) s) ! i)) \<and>
         i \<notin> set (listeners (onSent i (Some e) s)) \<and>
         (result (calls s ! i) = None \<longrightarrow>
            result (calls (onSent i (Some e) s) ! i) = Some (Rejected e)) \<and>
         (\<forall>x. result (calls s ! i) = Some x \<longrightarrow>
            result (calls (onSent i (Some e) s) ! i) = Some x)"
proof -
  have "client_inv s" using assms(1) by (rule reachable_inv)
  then have dl: "distinct (listeners s)" by (rule inv_distinct)
  have "step (SendDone i (Some e)) s = (None, onSent i (Some e) s)"
    using assms(2,3) by simp
  moreover have "\<not> is_armed (timer (calls (onSent i (Some e) s) ! i))"
    using assms(2) by (simp add: onSent_def Let_def)
  moreover have "i \<notin> set (listeners (onSent i (Some e) s))"
    using dl by (simp add: onSent_def Let_def set_removeListener)
  moreover have "result (calls (onSent i (Some e) s) ! i) = Some (Rejected e)"
    if "result (calls s ! i) = None"
    using assms(2) that by (simp add: onSent_def Let_def)
  moreover have "result (calls (onSent i (Some e) s) ! i) = Some x"
    if "result (calls s ! i) = Some x" for x
    using assms(2) that by (simp add: onSent_def Let_def)
  ultimately show ?thesis by blast
qed

theorem transport_error_rejects_witness:
  "started (calls (exec [Invoke [7] example_parse example_match None, ConnectDone None]
        example_client) ! 0) \<and>
   result (calls (exec [Invoke [7] example_parse example_match None, ConnectDone None]
        example_client) ! 0) = None \<and>
   timer (calls (exec [Invoke [7] example_parse example_match None, ConnectDone None]
        example_client) ! 0) = Armed (Num 5000) \<and>
   result (calls (onSent 0 (Some \<lparr>message = ''send EMSGSIZE'', code = Some ''EMSGSIZE''\<rparr>)
     (exec [Invoke [7] example_parse example_match None, ConnectDone None] example_client)) ! 0) =
     Some (Rejected \<lparr>message = ''send EMSGSIZE'', code = Some ''EMSGSIZE''\<rparr>) \<and>
   timer (calls (onSent 0 (Some \<lparr>message = ''send EMSGSIZE'', code = Some ''EMSGSIZE''\<rparr>)
     (exec [Invoke [7] example_parse example_match None, ConnectDone None] example_client)) ! 0) =
     Cleared \<and>
   listeners (onSent 0 (Some \<lparr>message = ''send EMSGSIZE'', code = Some ''EMSGSIZE''\<rparr>)
     (exec [Invoke [7] example_parse example_match None, ConnectDone None] example_client)) = []"
  using transport_error_rejects [OF reachable_exec [OF reachable_new], of 0
      "[Invoke [7] example_parse example_match None, ConnectDone None]"
      "''192.168.1.10''" 54321 "\<lparr>message = ''send EMSGSIZE'', code = Some ''EMSGSIZE''\<rparr>"]
  by (simp add: model_defs)

text \<open>
  Claim C9. When the transmission completes without an error, the callback given to
  \<open>socket.send\<close> changes nothing: the whole state, and with it the call's promise,
  its listener registration and its timer, is the same before and after.
\<close>

theorem send_callback_success_changes_nothing:
  "onSent i None s = s \<and> step (SendDone i None) s = (None, s)"
  by (simp add: onSent_def)

subsection \<open>The two kinds of failure\<close>

text \<open>
  Claim C10, as stated: the message \<open>Socket timeout\<close> is the only means a caller has
  to tell the timeout failure from a transport failure. It fails. The transport failure
  is the error object of the runtime, passed on unchanged, and such an object carries a
  code where the error of the timer carries none: the two rejections differ in their
  codes, and they differ even when the messages are the same.
\<close>

theorem failure_kinds_told_apart_by_code:
  "map_option code (rejection (result (calls (onTimeout 0
      (exec [Invoke [7] example_parse example_match (Some (Num 30)), ConnectDone None]
        example_client)) ! 0))) = Some None \<and>
   map_option code (rejection (result (calls
      (onSent 0 (Some \<lparr>message = ''send EPERM'', code = Some ''EPERM''\<rparr>)
      (exec [Invoke [7] example_parse example_match (Some (Num 30)), ConnectDone None]
        example_client)) ! 0))) = Some (Some ''EPERM'') \<and>
   map_option message (rejection (result (calls
      (onSent 0 (Some \<lparr>message = ''Socket timeout'', code = Some ''EPERM''\<rparr>)
      (exec [Invoke [7] example_parse example_match (Some (Num 30)), ConnectDone None]
        example_client)) ! 0))) =
   map_option message (rejection (result (calls (onTimeout 0
      (exec [Invoke [7] example_parse example_match (Some (Num 30)), ConnectDone None]
        example_client)) ! 0))) \<and>
   result (calls
      (onSent 0 (Some \<lparr>message = ''Socket timeout'', code = Some ''EPERM''\<rparr>)
      (exec [Invoke [7] example_parse example_match (Some (Num 30)), ConnectDone None]
        example_client)) ! 0) \<noteq>
   result (calls (onTimeout 0
      (exec [Invoke [7] example_parse example_match (Some (Num 30)), ConnectDone None]
        example_client)) ! 0)"
  by (simp add: model_defs rejection_def)

text \<open>
  Claim C10, amended. The timer rejects a pending call with a plain error whose message
  is \<open>Socket timeout\<close> and that carries no code; the \<open>socket.send\<close> callback rejects
  it with the error object it was given, unchanged. \<open>send\<close> adds no mark of its own to
  either: the two rejections are the same exactly when the reported error is itself a
  plain error with the message \<open>Socket timeout\<close>, so a caller tells the kinds apart by
  what the error objects carry, the message or the code.
\<close>

theorem timeout_error_is_Socket_timeout:
  assumes "i < length (calls s)" "result (calls s ! i) = None"
  shows "(\<exists>e. result (calls (onTimeout i s) ! i) = Some (Rejected e) \<and>
             message e = ''Socket timeout'' \<and> code e = None) \<and>
         result (calls (onSent i (Some err) s) ! i) = Some (Rejected err) \<and>
         ((result (calls (onSent i (Some err) s) ! i) = result (calls (onTimeout i s) ! i)) =
          (message err = ''Socket timeout'' \<and> code err = None))"
proof -
  have t: "result (calls (onTimeout i s) ! i) = Some (Rejected (new_Error ''Socket timeout''))"
    using assms by (simp add: onTimeout_def Let_def)
  have u: "result (calls (onSent i (Some err) s) ! i) = Some (Rejected err)"
    using assms by (simp add: onSent_def Let_def)
  have "(err = new_Error ''Socket timeout'') = (message err = ''Socket timeout'' \<and> code err = None)"
    by (cases err) (auto simp: new_Error_def)
  then show ?thesis using t u by (auto simp: new_Error_def)
qed

theorem timeout_error_is_Socket_timeout_witness:
  "result (calls (exec [Invoke [7] example_parse example_match (Some (Num 30)), ConnectDone None]
        example_client) ! 0) = None \<and>
   result (calls (onTimeout 0 (exec [Invoke [7] example_parse example_match (Some (Num 30)),
        ConnectDone None] example_client)) ! 0) =
     Some (Rejected \<lparr>message = ''Socket timeout'', code = None\<rparr>) \<and>
   result (calls (onSent 0 (Some \<lparr>message = ''send EPERM'', code = Some ''EPERM''\<rparr>)
     (exec [Invoke [7] example_parse example_match (Some (Num 30)), ConnectDone None]
        example_client)) ! 0) =
     Some (Rejected \<lparr>message = ''send EPERM'', code = Some ''EPERM''\<rparr>)"
  using timeout_error_is_Socket_timeout [of 0
      "exec [Invoke [7] example_parse example_match (Some (Num 30)), ConnectDone None]
         example_client"
      "\<lparr>message = ''send EPERM'', code = Some ''EPERM''\<rparr>"]
  by (simp add: model_defs)

end
